theory Spec2Isabelle
  imports Main "HOL-Library.Sublist" "HOL-Library.Word"
begin

section \<open>The PlantUML service of electron/main.js\<close>

text \<open>
  The class \<^verbatim>\<open>PlantUMLService\<close> keeps a child process, a queue of pending requests and
  the text received from the child's standard output that has not been cut into
  documents yet. Its methods and the callbacks it registers (on the child's output, on
  the child's exit, on a request's timer) are modelled as functions on one state record.
  What the code does to the outside (spawning and killing a process, writing to its
  input, arming and clearing a timer, settling a promise, answering on the IPC channel)
  is appended to the field \<open>effects\<close>, in the order the code does it.

  The service only concatenates the texts it handles and searches them for ASCII
  markers, so they are kept as \<open>string\<close>; the code units of a JavaScript string matter
  for the hexadecimal encoding only and are modelled there.
\<close>

subsection \<open>Searching a string\<close>

text \<open>
  \<^verbatim>\<open>String.prototype.indexOf\<close>: the least position where the pattern starts, \<open>None\<close> for
  the source's \<open>-1\<close>.
\<close>

fun indexOf :: "string \<Rightarrow> string \<Rightarrow> nat option" where
  "indexOf [] d = (if d = [] then Some 0 else None)"
| "indexOf (c # s) d =
     (if take (length d) (c # s) = d then Some 0 else map_option Suc (indexOf s d))"

text \<open>\<^verbatim>\<open>substring(0, n)\<close> is \<open>take n\<close> and \<^verbatim>\<open>substring(n)\<close> is \<open>drop n\<close>.\<close>

definition delimiter :: string where
  "delimiter = ''</svg>''"

text \<open>
  Lines 88 to 94 of \<^verbatim>\<open>processBuffer\<close>: the document up to and including the first
  closing tag, and what is left of the buffer.
\<close>

definition extractFrame :: "string \<Rightarrow> (string \<times> string) option" where
  "extractFrame b =
     (case indexOf b delimiter of
        None \<Rightarrow> None
      | Some splitIndex \<Rightarrow>
          Some (take (splitIndex + length delimiter) b, drop (splitIndex + length delimiter) b))"

subsection \<open>State\<close>

datatype error =
    JarMissing                  \<comment> \<open>thrown by \<^verbatim>\<open>start\<close> when plantuml.jar is not found\<close>
  | ProcessClosedUnexpectedly   \<comment> \<open>'PlantUML process closed unexpectedly'\<close>
  | RenderTimeout               \<comment> \<open>'Rendering timed out'\<close>
  | WriteError                  \<comment> \<open>whatever \<^verbatim>\<open>stdin.write\<close> threw\<close>

datatype failure =
    StartFailed error           \<comment> \<open>\<^verbatim>\<open>err.message\<close> of the error thrown by \<^verbatim>\<open>start\<close>\<close>
  | PortBusy nat                \<comment> \<open>the message naming the one port of manual mode\<close>
  | RangeBusy nat nat           \<comment> \<open>the message naming \<^verbatim>\<open>startPort\<close>-\<^verbatim>\<open>endPort\<close>\<close>

datatype status = Success nat | Failure failure

datatype effect =
    Spawn nat                   \<comment> \<open>\<^verbatim>\<open>spawn('java', ...)\<close>; the argument names the child\<close>
  | Kill nat                    \<comment> \<open>\<^verbatim>\<open>process.kill()\<close>\<close>
  | Write nat string            \<comment> \<open>\<^verbatim>\<open>process.stdin.write(text)\<close> that returned\<close>
  | SetTimeout nat
  | ClearTimeout nat
  | Resolve nat string          \<comment> \<open>a call of a promise's \<^verbatim>\<open>resolve\<close>\<close>
  | Reject nat error            \<comment> \<open>a call of a promise's \<^verbatim>\<open>reject\<close>\<close>
  | Listen nat nat              \<comment> \<open>\<^verbatim>\<open>server.listen(port, '127.0.0.1')\<close> on a server\<close>
  | CloseServer nat             \<comment> \<open>\<^verbatim>\<open>localServer.close()\<close>\<close>
  | Reply status                \<comment> \<open>\<^verbatim>\<open>event.reply('local-server-status', ...)\<close>\<close>

text \<open>A queue entry \<^verbatim>\<open>{ resolve, reject, timeoutId }\<close>: its promise and its timer.\<close>

record request =
  promise :: nat
  timeoutId :: nat

record state =
  process :: "nat option"       \<comment> \<open>\<^verbatim>\<open>this.process\<close>, \<open>None\<close> for \<^verbatim>\<open>null\<close>\<close>
  queue :: "request list"       \<comment> \<open>\<^verbatim>\<open>this.queue\<close>\<close>
  buffer :: string              \<comment> \<open>\<^verbatim>\<open>this.buffer\<close>\<close>
  isRestarting :: bool          \<comment> \<open>\<^verbatim>\<open>this.isRestarting\<close>, set once and never read\<close>
  localServer :: "nat option"   \<comment> \<open>the global \<^verbatim>\<open>localServer\<close>\<close>
  jarExists :: bool             \<comment> \<open>what \<^verbatim>\<open>fs.existsSync(jarPath)\<close> answers\<close>
  writeThrows :: bool           \<comment> \<open>whether \<^verbatim>\<open>stdin.write\<close> throws\<close>
  occupied :: "nat set"         \<comment> \<open>the ports other programs hold\<close>
  alive :: "nat list"           \<comment> \<open>the children spawned and neither killed nor exited\<close>
  listening :: "(nat \<times> nat) list"  \<comment> \<open>the servers that listen, each with its port\<close>
  timers :: "nat list"          \<comment> \<open>the timers armed and neither fired nor cleared\<close>
  fresh :: nat                  \<comment> \<open>the next unused name of a child, promise or server\<close>
  effects :: "effect list"

definition emit :: "effect \<Rightarrow> state \<Rightarrow> state" where
  "emit e s = s\<lparr>effects := effects s @ [e]\<rparr>"

subsection \<open>stop, start, restart\<close>

definition stop :: "state \<Rightarrow> state" where
  "stop s =
     (let s1 = (case process s of
                  Some p \<Rightarrow> (emit (Kill p) s)\<lparr>alive := removeAll p (alive s), process := None\<rparr>
                | None \<Rightarrow> s)
      in s1\<lparr>queue := [], buffer := []\<rparr>)"

text \<open>
  \<^verbatim>\<open>start\<close> throws after it has called \<^verbatim>\<open>stop\<close>, so the state comes back in both cases:
  \<open>Some e\<close> is the error thrown, \<open>None\<close> a normal return.
\<close>

definition start :: "state \<Rightarrow> error option \<times> state" where
  "start s =
     (let s1 = stop s in
      if \<not> jarExists s1 then (Some JarMissing, s1)
      else (None, (emit (Spawn (fresh s1)) s1)
                    \<lparr>process := Some (fresh s1), alive := alive s1 @ [fresh s1],
                     fresh := Suc (fresh s1)\<rparr>))"

definition restart :: "state \<Rightarrow> error option \<times> state" where
  "restart s = start (stop s)"

subsection \<open>processBuffer and the callbacks of the child\<close>

text \<open>
  One turn of the loop of \<^verbatim>\<open>processBuffer\<close> for the document \<open>svgContent\<close>:
  \<^verbatim>\<open>this.queue.shift()\<close>, and when there was an entry its timer is cleared and its promise
  resolved. With an empty queue the document is dropped.
\<close>

definition deliver :: "request \<Rightarrow> string \<Rightarrow> state \<Rightarrow> state" where
  "deliver r svgContent s =
     emit (Resolve (promise r) svgContent)
       ((emit (ClearTimeout (timeoutId r)) s)\<lparr>timers := removeAll (timeoutId r) (timers s)\<rparr>)"

definition shiftResolve :: "string \<Rightarrow> state \<Rightarrow> state" where
  "shiftResolve svgContent s =
     (case queue s of
        [] \<Rightarrow> s
      | r # rest \<Rightarrow> deliver r svgContent (s\<lparr>queue := rest\<rparr>))"

lemma indexOf_bound: "indexOf b d = Some i \<Longrightarrow> i + length d \<le> length b"
proof (induction b arbitrary: i)
  case Nil
  then show ?case by (simp split: if_splits)
next
  case (Cons c b)
  show ?case
  proof (cases "take (length d) (c # b) = d")
    case True
    with Cons.prems have "i = 0" by simp
    moreover have "length (take (length d) (c # b)) \<le> length (c # b)" by simp
    with True have "length d \<le> length (c # b)" by simp
    ultimately show ?thesis by simp
  next
    case False
    with Cons.prems obtain j where "indexOf b d = Some j" "i = Suc j" by auto
    with Cons.IH show ?thesis by fastforce
  qed
qed

lemma extractFrame_shorter: "extractFrame b = Some (f, r) \<Longrightarrow> length r < length b"
proof -
  assume a: "extractFrame b = Some (f, r)"
  then obtain i where i: "indexOf b delimiter = Some i" and r: "r = drop (i + length delimiter) b"
    by (auto simp: extractFrame_def split: option.splits)
  from indexOf_bound [OF i] have "i + length delimiter \<le> length b" .
  moreover have "length delimiter = 6" by (simp add: delimiter_def)
  ultimately have "length b - (i + length delimiter) < length b" by arith
  then show ?thesis using r by simp
qed

function processBuffer :: "state \<Rightarrow> state" where
  "processBuffer s =
     (case extractFrame (buffer s) of
        None \<Rightarrow> s
      | Some (svgContent, rest) \<Rightarrow> processBuffer (shiftResolve svgContent (s\<lparr>buffer := rest\<rparr>)))"
  by pat_completeness auto
termination
proof (relation "measure (\<lambda>s. length (buffer s))")
  show "wf (measure (\<lambda>s. length (buffer s)))" by simp
next
  fix s :: state and x2 svgContent rest
  assume "extractFrame (buffer s) = Some x2" "(svgContent, rest) = x2"
  then have "length rest < length (buffer s)"
    using extractFrame_shorter by metis
  moreover have "buffer (shiftResolve svgContent (s\<lparr>buffer := rest\<rparr>)) = rest"
    by (simp add: shiftResolve_def deliver_def emit_def split: list.splits)
  ultimately show "(shiftResolve svgContent (s\<lparr>buffer := rest\<rparr>), s) \<in> measure (\<lambda>s. length (buffer s))"
    by simp
qed

declare processBuffer.simps [simp del]

text \<open>The callback on the child's standard output.\<close>

definition onData :: "string \<Rightarrow> state \<Rightarrow> state" where
  "onData chunk s = processBuffer (s\<lparr>buffer := buffer s @ chunk\<rparr>)"

text \<open>
  The loop of the callback on the child's exit: while the queue is not empty, shift an
  entry and reject it.
\<close>

function rejectAll :: "state \<Rightarrow> state" where
  "rejectAll s =
     (case queue s of
        [] \<Rightarrow> s
      | r # rest \<Rightarrow>
          rejectAll (emit (Reject (promise r) ProcessClosedUnexpectedly) (s\<lparr>queue := rest\<rparr>)))"
  by pat_completeness auto
termination
  by (relation "measure (\<lambda>s. length (queue s))") (auto simp: emit_def)

declare rejectAll.simps [simp del]

text \<open>
  The callback on the exit of the child \<open>p\<close>. It refers to the service, not to the
  child it was registered on: it clears \<^verbatim>\<open>this.process\<close> whichever child that is.
\<close>

definition onClose :: "nat \<Rightarrow> state \<Rightarrow> state" where
  "onClose p s = rejectAll (s\<lparr>process := None, alive := removeAll p (alive s)\<rparr>)"

subsection \<open>generateSvg and the timer of a request\<close>

definition endTags :: "string list" where
  "endTags = [''@enduml'', ''@endmindmap'', ''@endwbs'', ''@endgantt'', ''@endsalt'',
              ''@endjson'', ''@endyaml'', ''@endmath'', ''@endlatex'']"

text \<open>
  The flag \<^verbatim>\<open>i\<close> of the regular expression compares characters by their upper case.
  Without the flag \<^verbatim>\<open>u\<close> a character outside ASCII is never taken for an ASCII one, so
  only the letters a to z change.
\<close>

definition canonicalize :: "char \<Rightarrow> char" where
  "canonicalize c =
     (case map_of (zip ''abcdefghijklmnopqrstuvwxyz'' ''ABCDEFGHIJKLMNOPQRSTUVWXYZ'') c of
        Some u \<Rightarrow> u
      | None \<Rightarrow> c)"

definition hasEndTag :: "string \<Rightarrow> bool" where
  "hasEndTag pumlCode =
     list_ex (\<lambda>t. indexOf (map canonicalize pumlCode) (map canonicalize t) \<noteq> None) endTags"

definition placeholder :: string where
  \<open>placeholder = ''<svg xmlns="http://www.w3.org/2000/svg" width="200" height="60"><text x="10" y="40" font-family="sans-serif" font-size="14" fill="#888">...</text></svg>''\<close>

text \<open>
  \<^verbatim>\<open>generateSvg\<close> returns a promise, named by a fresh number; the caller's future is
  what \<open>effects\<close> says about that number. Reading \<^verbatim>\<open>this.process.stdin\<close> and writing to
  it happen inside the \<^verbatim>\<open>try\<close>, so a missing process and a write that throws both end in
  the \<^verbatim>\<open>catch\<close>.
\<close>

definition generateSvg :: "string \<Rightarrow> state \<Rightarrow> nat \<times> state" where
  "generateSvg pumlCode s =
     (let k = fresh s;
          s0 = s\<lparr>fresh := Suc k\<rparr>;
          (e, s1) = (if process s0 = None then start s0 else (None, s0))
      in (case e of
            Some err \<Rightarrow> (k, emit (Reject k err) s1)
          | None \<Rightarrow>
              (if \<not> hasEndTag pumlCode then (k, emit (Resolve k placeholder) s1)
               else
                 (let s2 = (emit (SetTimeout k) s1)\<lparr>timers := timers s1 @ [k]\<rparr>;
                      s3 = s2\<lparr>queue := queue s2 @ [\<lparr>promise = k, timeoutId = k\<rparr>]\<rparr>
                  in (case (if writeThrows s3 then None else process s3) of
                        Some p \<Rightarrow> (k, emit (Write p (pumlCode @ [CHR 0x0A])) s3)
                      | None \<Rightarrow>
                          (k, emit (Reject k WriteError)
                                ((emit (ClearTimeout k) s3)
                                   \<lparr>timers := removeAll k (timers s3)\<rparr>)))))))"

text \<open>\<^verbatim>\<open>Array.prototype.findIndex\<close>, \<open>None\<close> for \<open>-1\<close>.\<close>

fun findIndex :: "('a \<Rightarrow> bool) \<Rightarrow> 'a list \<Rightarrow> nat option" where
  "findIndex P [] = None"
| "findIndex P (x # xs) = (if P x then Some 0 else map_option Suc (findIndex P xs))"

text \<open>
  The callback of the timer of the request whose promise is \<open>k\<close>; a timer that is not
  armed does not fire. When \<^verbatim>\<open>restart\<close> throws, the \<^verbatim>\<open>reject\<close> after it is not reached.
\<close>

definition onTimeout :: "nat \<Rightarrow> state \<Rightarrow> error option \<times> state" where
  "onTimeout k s =
     (if k \<notin> set (timers s) then (None, s)
      else
        let s0 = s\<lparr>timers := removeAll k (timers s)\<rparr>;
            s1 = (case findIndex (\<lambda>r. promise r = k) (queue s0) of
                    None \<Rightarrow> s0
                  | Some i \<Rightarrow> s0\<lparr>queue := take i (queue s0) @ drop (Suc i) (queue s0)\<rparr>);
            (e, s2) = restart s1
        in (case e of
              Some err \<Rightarrow> (Some err, s2)
            | None \<Rightarrow> (None, emit (Reject k RenderTimeout) s2)))"

text \<open>
  The state of a promise: the first call of its \<^verbatim>\<open>resolve\<close> or \<^verbatim>\<open>reject\<close> settles it,
  later calls do nothing.
\<close>

datatype settled = Resolved string | Rejected error

fun outcome :: "effect list \<Rightarrow> nat \<Rightarrow> settled option" where
  "outcome [] k = None"
| "outcome (Resolve j v # es) k = (if j = k then Some (Resolved v) else outcome es k)"
| "outcome (Reject j e # es) k = (if j = k then Some (Rejected e) else outcome es k)"
| "outcome (_ # es) k = outcome es k"

text \<open>The service as the constructor leaves it, in a given environment.\<close>

definition initial :: "bool \<Rightarrow> state" where
  "initial jar =
     \<lparr>process = None, queue = [], buffer = [], isRestarting = False, localServer = None,
      jarExists = jar, writeThrows = False, occupied = {}, alive = [], listening = [],
      timers = [], fresh = 0, effects = []\<rparr>"

subsection \<open>The documents in a buffer\<close>

text \<open>
  A complete document ends with the closing tag and holds it nowhere else; \<open>extractAll\<close>
  cuts a text into its complete documents and the fragment after the last of them.
\<close>

definition completeFrame :: "string \<Rightarrow> bool" where
  "completeFrame f = (suffix delimiter f \<and> \<not> sublist delimiter (butlast f))"

function extractAll :: "string \<Rightarrow> string list \<times> string" where
  "extractAll b =
     (case extractFrame b of
        None \<Rightarrow> ([], b)
      | Some (f, r) \<Rightarrow> (let (fs, t) = extractAll r in (f # fs, t)))"
  by pat_completeness auto
termination
  by (relation "measure length") (auto dest: extractFrame_shorter)

declare extractAll.simps [simp del]

fun deliverAll :: "(request \<times> string) list \<Rightarrow> state \<Rightarrow> state" where
  "deliverAll [] s = s"
| "deliverAll ((r, f) # ps) s = deliverAll ps (deliver r f s)"

text \<open>What \<open>deliverAll\<close> appends to \<open>effects\<close>.\<close>

definition deliveries :: "(request \<times> string) list \<Rightarrow> effect list" where
  "deliveries ps = concat (map (\<lambda>(r, f). [ClearTimeout (timeoutId r), Resolve (promise r) f]) ps)"

subsection \<open>Runs of the service\<close>

text \<open>
  A run without timeout, stop or exit of the child: calls of \<^verbatim>\<open>generateSvg\<close> and
  deliveries of output, in any order. \<open>promises\<close> lists the promises the calls returned,
  \<open>submitted\<close> the texts they were called with, \<open>received\<close> is all the output delivered.
\<close>

datatype event = Submit string | Data string

fun step :: "event \<Rightarrow> state \<Rightarrow> state" where
  "step (Submit pumlCode) s = snd (generateSvg pumlCode s)"
| "step (Data chunk) s = onData chunk s"

fun run :: "event list \<Rightarrow> state \<Rightarrow> state" where
  "run [] s = s"
| "run (e # evs) s = run evs (step e s)"

fun promises :: "event list \<Rightarrow> state \<Rightarrow> nat list" where
  "promises [] s = []"
| "promises (Submit pumlCode # evs) s =
     fst (generateSvg pumlCode s) # promises evs (step (Submit pumlCode) s)"
| "promises (Data chunk # evs) s = promises evs (step (Data chunk) s)"

fun submitted :: "event list \<Rightarrow> string list" where
  "submitted [] = []"
| "submitted (Submit pumlCode # evs) = pumlCode # submitted evs"
| "submitted (Data chunk # evs) = submitted evs"

fun received :: "event list \<Rightarrow> string" where
  "received [] = []"
| "received (Submit pumlCode # evs) = received evs"
| "received (Data chunk # evs) = chunk @ received evs"

text \<open>
  The child answers requests: whenever output is delivered, it completes no more
  documents than there are entries waiting in the queue (\<open>n\<close> entries, with \<open>b\<close> in the
  buffer).
\<close>

fun causal :: "nat \<Rightarrow> string \<Rightarrow> event list \<Rightarrow> bool" where
  "causal n b [] = True"
| "causal n b (Submit pumlCode # evs) = causal (Suc n) b evs"
| "causal n b (Data chunk # evs) =
     (length (fst (extractAll (b @ chunk))) \<le> n \<and>
      causal (n - length (fst (extractAll (b @ chunk)))) (snd (extractAll (b @ chunk))) evs)"

text \<open>The queue entry that \<^verbatim>\<open>generateSvg\<close> pushes for the promise \<open>k\<close>.\<close>

definition entry :: "nat \<Rightarrow> request" where
  "entry k = \<lparr>promise = k, timeoutId = k\<rparr>"

text \<open>The calls of \<^verbatim>\<open>resolve\<close> and the writes to the child among the effects, in order.\<close>

fun resolutions :: "effect list \<Rightarrow> (nat \<times> string) list" where
  "resolutions [] = []"
| "resolutions (Resolve k v # es) = (k, v) # resolutions es"
| "resolutions (_ # es) = resolutions es"

fun writes :: "effect list \<Rightarrow> string list" where
  "writes [] = []"
| "writes (Write p t # es) = t # writes es"
| "writes (_ # es) = writes es"

text \<open>Two terminated texts, used as examples below.\<close>

definition requestA :: string where
  "requestA = ''@startuml'' @ [CHR 0x0A] @ ''a -> b'' @ [CHR 0x0A] @ ''@enduml''"

definition requestB :: string where
  "requestB = ''@startmindmap'' @ [CHR 0x0A] @ ''* x'' @ [CHR 0x0A] @ ''@EndMindMap''"

text \<open>The service after a start and two calls with these texts: two entries wait.\<close>

definition twoPending :: state where
  "twoPending = run [Submit requestA, Submit requestB] (snd (start (initial True)))"

text \<open>The timer of the first of two waiting requests fires.\<close>

definition afterTimeout :: state where
  "afterTimeout = snd (onTimeout 1 twoPending)"

text \<open>A new request is made after the restart.\<close>

definition afterFresh :: state where
  "afterFresh = snd (generateSvg requestA afterTimeout)"

text \<open>The timer of the second of the two requests fires.\<close>

definition afterSecond :: state where
  "afterSecond = snd (onTimeout 2 afterFresh)"

text \<open>The child sends a document.\<close>

definition afterAnswer :: state where
  "afterAnswer = onData ''<svg>d</svg>'' afterSecond"

text \<open>At last the timer of the new request fires.\<close>

definition afterStale :: state where
  "afterStale = snd (onTimeout 4 afterAnswer)"

text \<open>Or else, after the new request, the child killed by the restart exits.\<close>

definition afterOldExit :: state where
  "afterOldExit = onClose 0 afterFresh"

section \<open>The local HTTP server of electron/main.js\<close>

text \<open>
  \<^verbatim>\<open>createServerInstance\<close> makes a server object that does not listen yet; only its name
  matters here.
\<close>

definition createServerInstance :: "state \<Rightarrow> nat \<times> state" where
  "createServerInstance s = (fresh s, s\<lparr>fresh := Suc (fresh s)\<rparr>)"

text \<open>
  A port on which \<^verbatim>\<open>listen\<close> fails: another program holds it, or a server of this program
  listens on it.
\<close>

definition busy :: "state \<Rightarrow> nat \<Rightarrow> bool" where
  "busy s port = (port \<in> occupied s \<or> port \<in> snd ` set (listening s))"

text \<open>
  \<^verbatim>\<open>tryListen\<close>: the promise resolves (\<open>True\<close>) when the server listens and is rejected
  (\<open>False\<close>) on any error.
\<close>

definition tryListen :: "nat \<Rightarrow> nat \<Rightarrow> state \<Rightarrow> bool \<times> state" where
  "tryListen server port s =
     (let s1 = emit (Listen server port) s in
      if busy s1 port then (False, s1)
      else (True, s1\<lparr>listening := listening s1 @ [(server, port)]\<rparr>))"

text \<open>The first lines of both IPC handlers: close the server that runs, if any.\<close>

definition closeLocalServer :: "state \<Rightarrow> state" where
  "closeLocalServer s =
     (case localServer s of
        Some server \<Rightarrow>
          (emit (CloseServer server) s)
            \<lparr>listening := filter (\<lambda>(v, port). v \<noteq> server) (listening s), localServer := None\<rparr>
      | None \<Rightarrow> s)"

text \<open>
  The loop of automatic mode, from \<open>currentPort\<close> on; the result says whether a server
  was started.
\<close>

function scanPorts :: "nat \<Rightarrow> nat \<Rightarrow> state \<Rightarrow> bool \<times> state" where
  "scanPorts currentPort endPort s =
     (if currentPort \<le> endPort then
        (let (server, s1) = createServerInstance s;
             (ok, s2) = tryListen server currentPort (s1\<lparr>localServer := Some server\<rparr>)
         in if ok then (True, emit (Reply (Success currentPort)) s2)
            else scanPorts (Suc currentPort) endPort (s2\<lparr>localServer := None\<rparr>))
      else (False, s))"
  by pat_completeness auto
termination
  by (relation "measure (\<lambda>(currentPort, endPort, s). Suc endPort - currentPort)") auto

declare scanPorts.simps [simp del]

text \<open>
  The handler of 'start-local-server'. \<open>specificPort\<close> is \<open>None\<close> for \<^verbatim>\<open>null\<close>; the test
  \<^verbatim>\<open>if (specificPort)\<close> also sends the port 0 to automatic mode.
\<close>

definition startPort :: nat where
  "startPort = 8080"

definition endPort :: nat where
  "endPort = 8090"

definition startLocalServer :: "nat option \<Rightarrow> state \<Rightarrow> state" where
  "startLocalServer specificPort s =
     (let s1 = closeLocalServer s;
          (e, s2) = start s1
      in (case e of
            Some err \<Rightarrow> emit (Reply (Failure (StartFailed err))) s2
          | None \<Rightarrow>
              (case (if specificPort = Some 0 then None else specificPort) of
                 Some port \<Rightarrow>
                   (let (server, s3) = createServerInstance s2;
                        (ok, s4) = tryListen server port (s3\<lparr>localServer := Some server\<rparr>)
                    in if ok then emit (Reply (Success port)) s4
                       else (emit (Reply (Failure (PortBusy port))) s4)\<lparr>localServer := None\<rparr>)
               | None \<Rightarrow>
                   (let (started, s3) = scanPorts startPort endPort s2
                    in if \<not> started
                       then emit (Reply (Failure (RangeBusy startPort endPort))) s3
                       else s3))))"

text \<open>The handler of 'stop-local-server'.\<close>

definition stopLocalServer :: "state \<Rightarrow> state" where
  "stopLocalServer s = stop (closeLocalServer s)"

text \<open>The ports of the calls of \<^verbatim>\<open>listen\<close> and the answers on the IPC channel, in order.\<close>

fun attempts :: "effect list \<Rightarrow> nat list" where
  "attempts [] = []"
| "attempts (Listen server port # es) = port # attempts es"
| "attempts (_ # es) = attempts es"

fun replies :: "effect list \<Rightarrow> status list" where
  "replies [] = []"
| "replies (Reply st # es) = st # replies es"
| "replies (_ # es) = replies es"

text \<open>
  Nothing is left over from before: every child that runs is the one the service holds,
  and every listening socket belongs to the server the global variable holds.
\<close>

definition tidy :: "state \<Rightarrow> bool" where
  "tidy s =
     (list_all (\<lambda>p. process s = Some p) (alive s) \<and>
      list_all (\<lambda>(server, port). localServer s = Some server) (listening s))"

text \<open>What one run of the loop of automatic mode does, from the first free port.\<close>

definition scanned :: "nat \<Rightarrow> nat \<Rightarrow> state \<Rightarrow> state \<Rightarrow> bool" where
  "scanned cur end s s' =
     (let free = find (\<lambda>q. \<not> busy s q) [cur..<Suc end] in
      attempts (effects s') =
        attempts (effects s) @ (case free of None \<Rightarrow> [cur..<Suc end] | Some q \<Rightarrow> [cur..<Suc q]) \<and>
      replies (effects s') =
        replies (effects s) @ (case free of None \<Rightarrow> [] | Some q \<Rightarrow> [Success q]) \<and>
      alive s' = alive s \<and> process s' = process s \<and>
      (case free of
         None \<Rightarrow> listening s' = listening s \<and>
                   localServer s' = (if cur \<le> end then None else localServer s)
       | Some q \<Rightarrow> (\<exists>server. listening s' = listening s @ [(server, q)] \<and>
                      localServer s' = Some server)))"

text \<open>A service whose server listens on 8081, port 8080 being held by another program.\<close>

definition serving :: state where
  "serving = startLocalServer None ((initial True)\<lparr>occupied := {8080}\<rparr>)"

text \<open>
  While that server runs, a start is asked for on the busy port 8080; then the child
  that this start killed exits.
\<close>

definition failedRestart :: state where
  "failedRestart = startLocalServer (Some 8080) serving"

definition failedRestartExit :: state where
  "failedRestartExit = onClose 0 failedRestart"

section \<open>The hexadecimal path segment\<close>

text \<open>
  A JavaScript string is a sequence of 16-bit code units, a \<^verbatim>\<open>Uint8Array\<close> or \<^verbatim>\<open>Buffer\<close> a
  sequence of bytes. The hexadecimal text and the request path are ASCII and are kept
  as \<open>string\<close>.
\<close>

type_synonym jsString = "16 word list"
type_synonym bytes = "8 word list"

subsection \<open>The platform: TextEncoder and Buffer\<close>

text \<open>
  \<^verbatim>\<open>TextEncoder.encode\<close> first reads the code units as scalar values: a high surrogate
  followed by a low one is one code point, any other surrogate is replaced by U+FFFD.
\<close>

fun scalarValues :: "nat list \<Rightarrow> nat list" where
  "scalarValues [] = []"
| "scalarValues (u # us) =
     (if 0xD800 \<le> u \<and> u \<le> 0xDBFF then
        (case us of
           [] \<Rightarrow> [0xFFFD]
         | v # rest \<Rightarrow>
             if 0xDC00 \<le> v \<and> v \<le> 0xDFFF
             then (0x10000 + (u - 0xD800) * 0x400 + (v - 0xDC00)) # scalarValues rest
             else 0xFFFD # scalarValues us)
      else if 0xDC00 \<le> u \<and> u \<le> 0xDFFF then 0xFFFD # scalarValues us
      else u # scalarValues us)"

text \<open>The UTF-8 bytes of a scalar value.\<close>

definition utf8Bytes :: "nat \<Rightarrow> nat list" where
  "utf8Bytes cp =
     (if cp < 0x80 then [cp]
      else if cp < 0x800 then [0xC0 + cp div 0x40, 0x80 + cp mod 0x40]
      else if cp < 0x10000 then
        [0xE0 + cp div 0x1000, 0x80 + cp div 0x40 mod 0x40, 0x80 + cp mod 0x40]
      else [0xF0 + cp div 0x40000, 0x80 + cp div 0x1000 mod 0x40,
            0x80 + cp div 0x40 mod 0x40, 0x80 + cp mod 0x40])"

definition textEncoderEncode :: "jsString \<Rightarrow> bytes" where
  "textEncoderEncode code = map of_nat (concat (map utf8Bytes (scalarValues (map unat code))))"

text \<open>
  \<^verbatim>\<open>Buffer.from(hex, 'hex')\<close> reads two hexadecimal digits per byte and stops at the first
  pair that is not one; a last single character is dropped.
\<close>

definition hexVal :: "char \<Rightarrow> nat option" where
  "hexVal c =
     map_of (zip ''0123456789abcdefABCDEF''
               [0, 1, 2, 3, 4, 5, 6, 7, 8, 9, 10, 11, 12, 13, 14, 15, 10, 11, 12, 13, 14, 15]) c"

fun bufferFromHex :: "string \<Rightarrow> bytes" where
  "bufferFromHex (a # b # rest) =
     (case (hexVal a, hexVal b) of
        (Some h, Some l) \<Rightarrow> of_nat (16 * h + l) # bufferFromHex rest
      | _ \<Rightarrow> [])"
| "bufferFromHex _ = []"

text \<open>
  \<^verbatim>\<open>buf.toString('utf8')\<close> decodes UTF-8 and puts U+FFFD for every maximal part of an
  ill-formed sequence; it does not remove a byte order mark. \<open>continuation\<close> are the
  bytes 80 to BF.
\<close>

definition continuation :: "nat \<Rightarrow> bool" where
  "continuation b = (0x80 \<le> b \<and> b \<le> 0xBF)"

fun utf8Decode :: "nat list \<Rightarrow> nat list" where
  "utf8Decode [] = []"
| "utf8Decode (b # bs) =
     (if b < 0x80 then b # utf8Decode bs
      else if 0xC2 \<le> b \<and> b \<le> 0xDF then
        (case bs of
           [] \<Rightarrow> [0xFFFD]
         | c1 # r1 \<Rightarrow>
             if continuation c1 then ((b - 0xC0) * 0x40 + (c1 - 0x80)) # utf8Decode r1
             else 0xFFFD # utf8Decode bs)
      else if 0xE0 \<le> b \<and> b \<le> 0xEF then
        (case bs of
           [] \<Rightarrow> [0xFFFD]
         | c1 # r1 \<Rightarrow>
             if (if b = 0xE0 then 0xA0 else 0x80) \<le> c1 \<and> c1 \<le> (if b = 0xED then 0x9F else 0xBF)
             then (case r1 of
                     [] \<Rightarrow> [0xFFFD]
                   | c2 # r2 \<Rightarrow>
                       if continuation c2
                       then ((b - 0xE0) * 0x1000 + (c1 - 0x80) * 0x40 + (c2 - 0x80)) # utf8Decode r2
                       else 0xFFFD # utf8Decode r1)
             else 0xFFFD # utf8Decode bs)
      else if 0xF0 \<le> b \<and> b \<le> 0xF4 then
        (case bs of
           [] \<Rightarrow> [0xFFFD]
         | c1 # r1 \<Rightarrow>
             if (if b = 0xF0 then 0x90 else 0x80) \<le> c1 \<and> c1 \<le> (if b = 0xF4 then 0x8F else 0xBF)
             then (case r1 of
                     [] \<Rightarrow> [0xFFFD]
                   | c2 # r2 \<Rightarrow>
                       if continuation c2
                       then (case r2 of
                               [] \<Rightarrow> [0xFFFD]
                             | c3 # r3 \<Rightarrow>
                                 if continuation c3
                                 then ((b - 0xF0) * 0x40000 + (c1 - 0x80) * 0x1000 +
                                       (c2 - 0x80) * 0x40 + (c3 - 0x80)) # utf8Decode r3
                                 else 0xFFFD # utf8Decode r2)
                       else 0xFFFD # utf8Decode r1)
             else 0xFFFD # utf8Decode bs)
      else 0xFFFD # utf8Decode bs)"

text \<open>The code units of a code point: itself, or a surrogate pair from U+10000 on.\<close>

definition codeUnits :: "nat \<Rightarrow> nat list" where
  "codeUnits cp =
     (if cp < 0x10000 then [cp]
      else [0xD800 + (cp - 0x10000) div 0x400, 0xDC00 + (cp - 0x10000) mod 0x400])"

definition bufferToStringUtf8 :: "bytes \<Rightarrow> jsString" where
  "bufferToStringUtf8 buf = map of_nat (concat (map codeUnits (utf8Decode (map unat buf))))"

subsection \<open>encodePlantUML of components/Preview.tsx\<close>

text \<open>\<^verbatim>\<open>data[i].toString(16)\<close> for a byte: lower-case digits, no leading zero.\<close>

definition hexDigit :: "nat \<Rightarrow> char" where
  "hexDigit n = ''0123456789abcdef'' ! n"

definition toString16 :: "8 word \<Rightarrow> string" where
  "toString16 b =
     (if unat b < 16 then [hexDigit (unat b)]
      else [hexDigit (unat b div 16), hexDigit (unat b mod 16)])"

text \<open>The loop that builds \<^verbatim>\<open>hexStr\<close>, from the bytes still to go.\<close>

fun hexLoop :: "bytes \<Rightarrow> string \<Rightarrow> string" where
  "hexLoop [] hexStr = hexStr"
| "hexLoop (b # data) hexStr =
     hexLoop data (hexStr @ (if length (toString16 b) = 1 then ''0'' else []) @ toString16 b)"

text \<open>
  \<^verbatim>\<open>serverUrl.replace(/\/+$/, '')\<close>: the trailing slashes are removed. Nothing in the
  \<^verbatim>\<open>try\<close> block of \<^verbatim>\<open>encodePlantUML\<close> throws on a string, so its \<^verbatim>\<open>catch\<close> is not a
  branch of the model.
\<close>

definition cleanBaseUrl :: "string \<Rightarrow> string" where
  "cleanBaseUrl serverUrl = rev (dropWhile (\<lambda>c. c = CHR ''/'') (rev serverUrl))"

definition encodePlantUML :: "jsString \<Rightarrow> string \<Rightarrow> string" where
  "encodePlantUML code serverUrl =
     cleanBaseUrl serverUrl @ ''/svg/~h'' @ hexLoop (textEncoderEncode code) []"

subsection \<open>The request handler of electron/main.js\<close>

text \<open>\<^verbatim>\<open>pathname.split('/')\<close>.\<close>

fun split :: "string \<Rightarrow> string list" where
  "split [] = [[]]"
| "split (c # cs) =
     (if c = CHR ''/'' then [] # split cs
      else (case split cs of p # ps \<Rightarrow> (c # p) # ps | [] \<Rightarrow> [[c]]))"

text \<open>
  Lines 255 to 267: the first part of the path that starts with \<^verbatim>\<open>~h\<close>, without these
  two characters, read as hexadecimal and then as UTF-8. \<open>None\<close> is the answer 400.
\<close>

definition decodePath :: "string \<Rightarrow> jsString option" where
  "decodePath pathname =
     (case findIndex (\<lambda>p. take 2 p = ''~h'') (split pathname) of
        None \<Rightarrow> None
      | Some hexIndex \<Rightarrow>
          Some (bufferToStringUtf8 (bufferFromHex (drop 2 (split pathname ! hexIndex)))))"

text \<open>\<^verbatim>\<open>String.prototype.isWellFormed\<close>: no surrogate stands alone.\<close>

fun isWellFormed :: "nat list \<Rightarrow> bool" where
  "isWellFormed [] = True"
| "isWellFormed (u # us) =
     (if 0xD800 \<le> u \<and> u \<le> 0xDBFF then
        (case us of
           [] \<Rightarrow> False
         | v # rest \<Rightarrow> 0xDC00 \<le> v \<and> v \<le> 0xDFFF \<and> isWellFormed rest)
      else \<not> (0xDC00 \<le> u \<and> u \<le> 0xDFFF) \<and> isWellFormed us)"

text \<open>What one turn of the loop appends to \<^verbatim>\<open>hexStr\<close>.\<close>

definition hexByte :: "8 word \<Rightarrow> string" where
  "hexByte b = (if length (toString16 b) = 1 then ''0'' else []) @ toString16 b"

text \<open>A Unicode scalar value: a code point that is not a surrogate.\<close>

definition scalar :: "nat \<Rightarrow> bool" where
  "scalar cp = (cp < 0x110000 \<and> \<not> (0xD800 \<le> cp \<and> cp \<le> 0xDFFF))"

section \<open>Properties\<close>

subsection \<open>The frame decoder\<close>


lemma take_eq_prefix: "take (length d) b = d \<longleftrightarrow> prefix d b"
  by (metis append_eq_conv_conj prefix_def)

lemma indexOf_None_iff: "indexOf b d = None \<longleftrightarrow> \<not> sublist d b"
  by (induction b) (auto simp: sublist_Cons_right take_eq_prefix simp del: take_Suc_Cons)

lemma indexOf_first:
  "d \<noteq> [] \<Longrightarrow> \<not> sublist d (p @ butlast d) \<Longrightarrow> indexOf (p @ d @ q) d = Some (length p)"
proof (induction p)
  case Nil
  then show ?case by (cases d) auto
next
  case (Cons c p)
  have "\<not> prefix d (c # p @ d @ q)"
  proof
    assume pre: "prefix d (c # p @ d @ q)"
    have "c # p @ d @ q = (c # p @ butlast d) @ (last d # q)"
      using Cons.prems(1) by simp
    moreover have "length d \<le> length (c # p @ butlast d)" by simp
    ultimately have "prefix d (c # p @ butlast d)"
      using pre by (metis prefix_length_prefix prefixI)
    then show False using Cons.prems(2) by auto
  qed
  moreover have "\<not> sublist d (p @ butlast d)"
    using Cons.prems(2) by (auto simp: sublist_Cons_right)
  ultimately show ?case using Cons by (simp add: take_eq_prefix del: take_Suc_Cons)
qed

lemma indexOf_SomeD:
  "indexOf b d = Some i \<Longrightarrow> d \<noteq> [] \<Longrightarrow>
     take i b @ d @ drop (i + length d) b = b \<and> \<not> sublist d (take i b @ butlast d)"
proof (induction b arbitrary: i)
  case Nil
  then show ?case by simp
next
  case (Cons c b)
  show ?case
  proof (cases "prefix d (c # b)")
    case True
    then have "i = 0" using Cons.prems by (simp add: take_eq_prefix del: take_Suc_Cons)
    moreover have "\<not> sublist d (butlast d)"
      using Cons.prems(2) by (metis sublist_length_le length_butlast diff_less length_greater_0_conv not_le zero_less_one)
    ultimately show ?thesis using True by (auto simp: prefix_def)
  next
    case False
    then obtain j where j: "indexOf b d = Some j" "i = Suc j"
      using Cons.prems by (auto simp add: take_eq_prefix simp del: take_Suc_Cons)
    from Cons.IH [OF j(1) Cons.prems(2)]
    have ih: "take j b @ d @ drop (j + length d) b = b" "\<not> sublist d (take j b @ butlast d)" by auto
    have "\<not> prefix d (c # take j b @ butlast d)"
    proof
      assume "prefix d (c # take j b @ butlast d)"
      moreover have "prefix (c # take j b @ butlast d) (c # b)"
        by (metis ih(1) append_butlast_last_id Cons.prems(2) prefixI append.assoc append_Cons prefix_code(3) )
      ultimately show False using False by (metis prefix_order.order_trans)
    qed
    then show ?thesis using ih j by (simp add: sublist_Cons_right)
  qed
qed


lemma delimiter_nonempty: "delimiter \<noteq> []"
  by (simp add: delimiter_def)

lemma extractFrame_None_iff: "extractFrame b = None \<longleftrightarrow> \<not> sublist delimiter b"
  by (cases "indexOf b delimiter") (auto simp: extractFrame_def indexOf_None_iff [symmetric])

lemma extractFrame_SomeD:
  assumes "extractFrame b = Some (f, r)"
  shows "b = f @ r \<and> completeFrame f"
proof -
  from assms obtain i where i: "indexOf b delimiter = Some i"
    and f: "f = take (i + length delimiter) b" and r: "r = drop (i + length delimiter) b"
    by (auto simp: extractFrame_def split: option.splits)
  from indexOf_SomeD [OF i delimiter_nonempty]
  have b: "take i b @ delimiter @ drop (i + length delimiter) b = b"
    and n: "\<not> sublist delimiter (take i b @ butlast delimiter)" by auto
  have len: "i + length delimiter \<le> length b" using indexOf_bound [OF i] .
  have "take (i + length delimiter) b = take i b @ delimiter"
  proof -
    have "take (i + length delimiter) (take i b @ delimiter @ drop (i + length delimiter) b)
          = take i b @ delimiter"
      using len by simp
    then show ?thesis using b by simp
  qed
  then have f': "f = take i b @ delimiter" using f by simp
  then have "butlast f = take i b @ butlast delimiter"
    using delimiter_nonempty by (simp add: butlast_append)
  then have "completeFrame f" using n f' by (simp add: completeFrame_def suffix_def)
  moreover have "b = f @ r" using f r by simp
  ultimately show ?thesis by simp
qed

lemma extractFrame_complete:
  assumes "completeFrame f"
  shows "extractFrame (f @ rest) = Some (f, rest)"
proof -
  from assms obtain p where p: "f = p @ delimiter" by (auto simp: completeFrame_def suffix_def)
  then have "butlast f = p @ butlast delimiter"
    using delimiter_nonempty by (simp add: butlast_append)
  then have "\<not> sublist delimiter (p @ butlast delimiter)"
    using assms by (simp add: completeFrame_def)
  from indexOf_first [OF delimiter_nonempty this, of rest]
  have "indexOf (f @ rest) delimiter = Some (length p)" using p by simp
  then show ?thesis using p by (simp add: extractFrame_def)
qed

lemma extractAll_frames:
  "\<forall>f\<in>set fs. completeFrame f \<Longrightarrow> \<not> sublist delimiter t \<Longrightarrow> extractAll (concat fs @ t) = (fs, t)"
proof (induction fs)
  case Nil
  then have "extractFrame t = None" by (simp add: extractFrame_None_iff)
  then show ?case by (simp add: extractAll.simps)
next
  case (Cons f fs)
  then have "extractFrame (f @ concat fs @ t) = Some (f, concat fs @ t)"
    by (simp add: extractFrame_complete)
  then show ?case using Cons by (simp add: extractAll.simps [of "f @ concat fs @ t"])
qed

lemma deliver_update:
  "deliver r f (s\<lparr>buffer := b, queue := q\<rparr>) = (deliver r f s)\<lparr>buffer := b, queue := q\<rparr>"
  by (simp add: deliver_def emit_def)

lemma deliverAll_update:
  "deliverAll ps (s\<lparr>buffer := b, queue := q\<rparr>) = (deliverAll ps s)\<lparr>buffer := b, queue := q\<rparr>"
  by (induction ps arbitrary: s) (auto simp: deliver_update)

lemma processBuffer_eq:
  "processBuffer s =
     (deliverAll (zip (queue s) (fst (extractAll (buffer s)))) s)
       \<lparr>buffer := snd (extractAll (buffer s)),
        queue := drop (length (fst (extractAll (buffer s)))) (queue s)\<rparr>"
proof (induction s rule: processBuffer.induct)
  case (1 s)
  show ?case
  proof (cases "extractFrame (buffer s)")
    case None
    then show ?thesis
      by (simp add: processBuffer.simps [of s] extractAll.simps [of "buffer s"])
  next
    case (Some x)
    obtain f r where x: "x = (f, r)" by (cases x)
    obtain fs t where ea: "extractAll r = (fs, t)" by (cases "extractAll r")
    have ea': "extractAll (buffer s) = (f # fs, t)"
      using Some x ea by (simp add: extractAll.simps [of "buffer s"])
    let ?s' = "shiftResolve f (s\<lparr>buffer := r\<rparr>)"
    have b': "buffer ?s' = r"
      by (simp add: shiftResolve_def deliver_def emit_def split: list.splits)
    have ih: "processBuffer ?s' =
       (deliverAll (zip (queue ?s') fs) ?s')\<lparr>buffer := t, queue := drop (length fs) (queue ?s')\<rparr>"
      using "1.IH" [OF Some x [symmetric]] b' ea by simp
    have pb: "processBuffer s = processBuffer ?s'"
      using Some x by (simp add: processBuffer.simps [of s])
    show ?thesis
    proof (cases "queue s")
      case Nil
      then show ?thesis using pb ih ea' by (simp add: shiftResolve_def)
    next
      case (Cons q qs)
      then have s': "?s' = (deliver q f s)\<lparr>buffer := r, queue := qs\<rparr>"
        by (simp add: shiftResolve_def deliver_def emit_def)
      have "queue ?s' = qs" using s' by simp
      then show ?thesis using pb ih ea' Cons s'
        by (simp add: deliverAll_update)
    qed
  qed
qed




lemma effects_deliverAll: "effects (deliverAll ps s) = effects s @ deliveries ps"
  by (induction ps arbitrary: s) (auto simp: deliveries_def deliver_def emit_def)

text \<open>
  Claim C5. One extraction step answers \<open>None\<close> exactly when the closing tag does not
  occur in the buffer; otherwise it cuts the buffer into the document, which ends with
  the first occurrence of the tag (the tag occurs nowhere in the document without its
  last character), and the rest. The loop of \<^verbatim>\<open>processBuffer\<close> on a buffer made of the
  complete documents \<open>fs\<close> and a fragment \<open>t\<close> without the tag leaves exactly \<open>t\<close> in
  the buffer, takes one queue entry per document and hands the documents out in order,
  the first to the first entry.
\<close>

theorem frame_decoder:
  "(extractFrame b = None \<longleftrightarrow> \<not> sublist delimiter b) \<and>
   (\<forall>f r. extractFrame b = Some (f, r) \<longrightarrow>
      b = f @ r \<and> suffix delimiter f \<and> \<not> sublist delimiter (butlast f)) \<and>
   ((\<forall>f\<in>set fs. completeFrame f) \<and> \<not> sublist delimiter t \<and> buffer s = concat fs @ t \<longrightarrow>
      buffer (processBuffer s) = t \<and>
      queue (processBuffer s) = drop (length fs) (queue s) \<and>
      effects (processBuffer s) = effects s @ deliveries (zip (queue s) fs))"
proof (intro conjI allI impI)
  show "extractFrame b = None \<longleftrightarrow> \<not> sublist delimiter b"
    by (rule extractFrame_None_iff)
next
  fix f r
  assume "extractFrame b = Some (f, r)"
  from extractFrame_SomeD [OF this]
  show "b = f @ r" "suffix delimiter f" "\<not> sublist delimiter (butlast f)"
    by (simp_all add: completeFrame_def)
next
  assume a: "(\<forall>f\<in>set fs. completeFrame f) \<and> \<not> sublist delimiter t \<and> buffer s = concat fs @ t"
  then have ea: "extractAll (buffer s) = (fs, t)"
    using extractAll_frames [of fs t] by simp
  show "buffer (processBuffer s) = t"
    by (subst processBuffer_eq) (simp add: ea)
  show "queue (processBuffer s) = drop (length fs) (queue s)"
    by (subst processBuffer_eq) (simp add: ea)
  show "effects (processBuffer s) = effects s @ deliveries (zip (queue s) fs)"
    by (subst processBuffer_eq) (simp add: ea effects_deliverAll)
qed

theorem frame_decoder_witness:
  "extractFrame ''<svg>a</svg><svg>b</svg><sv'' = Some (''<svg>a</svg>'', ''<svg>b</svg><sv'') \<and>
   suffix delimiter ''<svg>a</svg>'' \<and> \<not> sublist delimiter (butlast ''<svg>a</svg>'') \<and>
   buffer (processBuffer ((initial True)
      \<lparr>buffer := ''<svg>a</svg><svg>b</svg><sv'',
       queue := [\<lparr>promise = 0, timeoutId = 0\<rparr>, \<lparr>promise = 1, timeoutId = 1\<rparr>,
                 \<lparr>promise = 2, timeoutId = 2\<rparr>]\<rparr>)) = ''<sv'' \<and>
   queue (processBuffer ((initial True)
      \<lparr>buffer := ''<svg>a</svg><svg>b</svg><sv'',
       queue := [\<lparr>promise = 0, timeoutId = 0\<rparr>, \<lparr>promise = 1, timeoutId = 1\<rparr>,
                 \<lparr>promise = 2, timeoutId = 2\<rparr>]\<rparr>)) = [\<lparr>promise = 2, timeoutId = 2\<rparr>] \<and>
   effects (processBuffer ((initial True)
      \<lparr>buffer := ''<svg>a</svg><svg>b</svg><sv'',
       queue := [\<lparr>promise = 0, timeoutId = 0\<rparr>, \<lparr>promise = 1, timeoutId = 1\<rparr>,
                 \<lparr>promise = 2, timeoutId = 2\<rparr>]\<rparr>)) =
     [ClearTimeout 0, Resolve 0 ''<svg>a</svg>'', ClearTimeout 1, Resolve 1 ''<svg>b</svg>'']"
proof -
  let ?b = "''<svg>a</svg><svg>b</svg><sv''"
  let ?s = "(initial True)\<lparr>buffer := ?b,
       queue := [\<lparr>promise = 0, timeoutId = 0\<rparr>, \<lparr>promise = 1, timeoutId = 1\<rparr>,
                 \<lparr>promise = 2, timeoutId = 2\<rparr>]\<rparr>"
  have e: "extractFrame ?b = Some (''<svg>a</svg>'', ''<svg>b</svg><sv'')"
    by (simp add: extractFrame_def delimiter_def)
  have c: "\<forall>f\<in>set [''<svg>a</svg>'', ''<svg>b</svg>'']. completeFrame f"
    by (simp add: completeFrame_def delimiter_def suffix_def sublist_code)
  have t: "\<not> sublist delimiter ''<sv''"
    by (simp add: delimiter_def sublist_code)
  have b: "buffer ?s = concat [''<svg>a</svg>'', ''<svg>b</svg>''] @ ''<sv''"
    by simp
  from frame_decoder [of ?b "[''<svg>a</svg>'', ''<svg>b</svg>'']" "''<sv''" ?s] e c t b
  show ?thesis
    by (simp add: deliveries_def initial_def)
qed


subsection \<open>Runs: the order of answers\<close>


lemma extractFrame_append:
  "extractFrame a = Some (f, r) \<Longrightarrow> extractFrame (a @ b) = Some (f, r @ b)"
  using extractFrame_SomeD [of a f r] extractFrame_complete [of f "r @ b"] by simp

lemma extractAll_append:
  "extractAll (a @ b) =
     (fst (extractAll a) @ fst (extractAll (snd (extractAll a) @ b)),
      snd (extractAll (snd (extractAll a) @ b)))"
proof (induction a rule: extractAll.induct)
  case (1 a)
  show ?case
  proof (cases "extractFrame a")
    case None
    then have "extractAll a = ([], a)" by (simp add: extractAll.simps [of a])
    then show ?thesis by simp
  next
    case (Some x)
    obtain f r where x: "x = (f, r)" by (cases x)
    have "extractFrame (a @ b) = Some (f, r @ b)"
      using Some x by (simp add: extractFrame_append)
    then have l: "extractAll (a @ b) = (f # fst (extractAll (r @ b)), snd (extractAll (r @ b)))"
      by (simp add: extractAll.simps [of "a @ b"] split: prod.splits)
    have a: "extractAll a = (f # fst (extractAll r), snd (extractAll r))"
      using Some x by (simp add: extractAll.simps [of a] split: prod.splits)
    from "1.IH" [OF Some x [symmetric]] l a show ?thesis by simp
  qed
qed

lemma resolutions_append: "resolutions (es @ es') = resolutions es @ resolutions es'"
  by (induction es rule: resolutions.induct) auto

lemma writes_append: "writes (es @ es') = writes es @ writes es'"
  by (induction es rule: writes.induct) auto

lemma resolutions_deliveries:
  "resolutions (deliveries ps) = map (\<lambda>(r, f). (promise r, f)) ps"
  by (induction ps) (auto simp: deliveries_def)

lemma writes_deliveries: "writes (deliveries ps) = []"
  by (induction ps) (auto simp: deliveries_def)

lemma generateSvg_running:
  assumes "process s = Some p" "\<not> writeThrows s" "hasEndTag pumlCode"
  shows "generateSvg pumlCode s =
    (fresh s,
     s\<lparr>fresh := Suc (fresh s), timers := timers s @ [fresh s],
       queue := queue s @ [\<lparr>promise = fresh s, timeoutId = fresh s\<rparr>],
       effects := effects s @ [SetTimeout (fresh s), Write p (pumlCode @ [CHR 0x0A])]\<rparr>)"
  using assms by (simp add: generateSvg_def emit_def Let_def)

lemma deliverAll_fields:
  "process (deliverAll ps s) = process s"
  "writeThrows (deliverAll ps s) = writeThrows s"
  "fresh (deliverAll ps s) = fresh s"
  "jarExists (deliverAll ps s) = jarExists s"
  by (induction ps arbitrary: s) (auto simp: deliver_def emit_def)

lemma onData_fields:
  "process (onData ch s) = process s"
  "writeThrows (onData ch s) = writeThrows s"
  "fresh (onData ch s) = fresh s"
  "jarExists (onData ch s) = jarExists s"
  "buffer (onData ch s) = snd (extractAll (buffer s @ ch))"
  "queue (onData ch s) = drop (length (fst (extractAll (buffer s @ ch)))) (queue s)"
  "effects (onData ch s) = effects s @ deliveries (zip (queue s) (fst (extractAll (buffer s @ ch))))"
  by (simp_all add: onData_def processBuffer_eq deliverAll_fields effects_deliverAll)


lemma zip_shift:
  assumes "length fs \<le> length q"
  shows "zip (map promise q @ P) (fs @ fs') =
         map (\<lambda>(r, f). (promise r, f)) (zip q fs) @ zip (map promise (drop (length fs) q) @ P) fs'"
proof -
  let ?n = "length fs"
  have q: "map promise q = map promise (take ?n q) @ map promise (drop ?n q)"
    by (simp add: map_append [symmetric] del: map_append)
  have l: "length (map promise (take ?n q)) = length fs" using assms by simp
  have "zip (map promise q @ P) (fs @ fs') =
        zip (map promise (take ?n q) @ (map promise (drop ?n q) @ P)) (fs @ fs')"
    by (subst q) simp
  also have "\<dots> = zip (map promise (take ?n q)) fs @ zip (map promise (drop ?n q) @ P) fs'"
    using l by (rule zip_append)
  also have "zip (map promise (take ?n q)) fs = map (\<lambda>(r, f). (promise r, f)) (zip (take ?n q) fs)"
    by (simp add: zip_map1)
  also have "zip (take ?n q) fs = zip q fs"
  proof -
    have "zip (take ?n q) fs = zip (take ?n q) (take ?n fs)" by simp
    also have "\<dots> = take ?n (zip q fs)" by (simp only: take_zip)
    also have "\<dots> = zip q fs" by simp
    finally show ?thesis .
  qed
  finally show ?thesis .
qed

lemma extractAll_rest: "\<not> sublist delimiter (snd (extractAll b))"
proof (induction b rule: extractAll.induct)
  case (1 b)
  show ?case
  proof (cases "extractFrame b")
    case None
    moreover from None have "\<not> sublist delimiter b" by (simp add: extractFrame_None_iff)
    ultimately show ?thesis by (simp add: extractAll.simps [of b])
  next
    case (Some x)
    obtain f r where x: "x = (f, r)" by (cases x)
    from "1.IH" [OF Some x [symmetric]] Some x show ?thesis
      by (auto simp add: extractAll.simps [of b] split: prod.splits)
  qed
qed

lemma extractAll_none: "\<not> sublist delimiter b \<Longrightarrow> extractAll b = ([], b)"
proof -
  assume "\<not> sublist delimiter b"
  then have "extractFrame b = None" by (simp add: extractFrame_None_iff)
  then show ?thesis by (simp add: extractAll.simps [of b])
qed




lemma run_fifo:
  assumes "process s = Some p" "\<not> writeThrows s" "\<forall>c\<in>set (submitted evs). hasEndTag c"
    "causal (length (queue s)) (buffer s) evs" "\<not> sublist delimiter (buffer s)"
  shows "resolutions (effects (run evs s)) =
           resolutions (effects s) @
           zip (map promise (queue s) @ promises evs s) (fst (extractAll (buffer s @ received evs)))
         \<and> writes (effects (run evs s)) =
           writes (effects s) @ map (\<lambda>c. c @ [CHR 0x0A]) (submitted evs)"
  using assms
proof (induction evs arbitrary: s)
  case Nil
  then show ?case by (simp add: extractAll_none)
next
  case (Cons e evs)
  show ?case
  proof (cases e)
    case (Submit c)
    let ?s1 = "s\<lparr>fresh := Suc (fresh s), timers := timers s @ [fresh s],
       queue := queue s @ [\<lparr>promise = fresh s, timeoutId = fresh s\<rparr>],
       effects := effects s @ [SetTimeout (fresh s), Write p (c @ [CHR 0x0A])]\<rparr>"
    have hc: "hasEndTag c" using Cons.prems(3) by (simp add: Submit)
    have g: "generateSvg c s = (fresh s, ?s1)"
      using generateSvg_running [OF Cons.prems(1) Cons.prems(2) hc] .
    have ih: "resolutions (effects (run evs ?s1)) =
           resolutions (effects ?s1) @
           zip (map promise (queue ?s1) @ promises evs ?s1) (fst (extractAll (buffer ?s1 @ received evs)))
         \<and> writes (effects (run evs ?s1)) =
           writes (effects ?s1) @ map (\<lambda>c. c @ [CHR 0x0A]) (submitted evs)"
    proof (rule Cons.IH)
      show "process ?s1 = Some p" using Cons.prems(1) by simp
      show "\<not> writeThrows ?s1" using Cons.prems(2) by simp
      show "\<forall>c\<in>set (submitted evs). hasEndTag c" using Cons.prems(3) by (simp add: Submit)
      show "causal (length (queue ?s1)) (buffer ?s1) evs" using Cons.prems(4) by (simp add: Submit)
      show "\<not> sublist delimiter (buffer ?s1)" using Cons.prems(5) by simp
    qed
    have r: "run (e # evs) s = run evs ?s1"
      and pr: "promises (e # evs) s = fresh s # promises evs ?s1"
      and sb: "submitted (e # evs) = c # submitted evs"
      and rc: "received (e # evs) = received evs"
      by (simp_all add: Submit g)
    show ?thesis using ih
      by (simp add: Submit g resolutions_append writes_append)
  next
    case (Data ch)
    let ?s1 = "onData ch s"
    let ?fs = "fst (extractAll (buffer s @ ch))"
    let ?t = "snd (extractAll (buffer s @ ch))"
    have le: "length ?fs \<le> length (queue s)" using Cons.prems Data by simp
    have e1: "effects ?s1 = effects s @ deliveries (zip (queue s) ?fs)"
      and q1: "queue ?s1 = drop (length ?fs) (queue s)"
      and b1: "buffer ?s1 = ?t"
      by (simp_all add: onData_fields)
    have c1: "causal (length (queue ?s1)) (buffer ?s1) evs"
      using Cons.prems(4) by (simp add: Data q1 b1)
    have ih: "resolutions (effects (run evs ?s1)) =
           resolutions (effects ?s1) @
           zip (map promise (queue ?s1) @ promises evs ?s1) (fst (extractAll (buffer ?s1 @ received evs)))
         \<and> writes (effects (run evs ?s1)) =
           writes (effects ?s1) @ map (\<lambda>c. c @ [CHR 0x0A]) (submitted evs)"
    proof (rule Cons.IH)
      show "process ?s1 = Some p" using Cons.prems(1) by (simp add: onData_fields)
      show "\<not> writeThrows ?s1" using Cons.prems(2) by (simp add: onData_fields)
      show "\<forall>c\<in>set (submitted evs). hasEndTag c" using Cons.prems(3) by (simp add: Data)
      show "causal (length (queue ?s1)) (buffer ?s1) evs" by (rule c1)
      show "\<not> sublist delimiter (buffer ?s1)" by (simp add: b1 extractAll_rest)
    qed
    have ea: "fst (extractAll (buffer s @ received (e # evs))) =
              ?fs @ fst (extractAll (?t @ received evs))"
      using extractAll_append [of "buffer s @ ch" "received evs"] by (simp add: Data)
    have r: "run (e # evs) s = run evs ?s1" and pr: "promises (e # evs) s = promises evs ?s1"
      and sb: "submitted (e # evs) = submitted evs"
      by (simp_all add: Data)
    have "resolutions (effects (run (e # evs) s)) =
          (resolutions (effects s) @ map (\<lambda>(r, f). (promise r, f)) (zip (queue s) ?fs)) @
           zip (map promise (drop (length ?fs) (queue s)) @ promises evs ?s1)
               (fst (extractAll (?t @ received evs)))"
      using ih by (simp only: r e1 q1 b1 resolutions_append resolutions_deliveries)
    also have "\<dots> = resolutions (effects s) @
           zip (map promise (queue s) @ promises (e # evs) s)
               (fst (extractAll (buffer s @ received (e # evs))))"
      by (simp only: ea pr zip_shift [OF le] append.assoc)
    finally have A: "resolutions (effects (run (e # evs) s)) = resolutions (effects s) @
           zip (map promise (queue s) @ promises (e # evs) s)
               (fst (extractAll (buffer s @ received (e # evs))))" .
    have B: "writes (effects (run (e # evs) s)) =
           writes (effects s) @ map (\<lambda>c. c @ [CHR 0x0A]) (submitted (e # evs))"
      using ih by (simp only: r e1 sb writes_append writes_deliveries append_Nil2)
    show ?thesis using A B by (rule conjI)
  qed
qed




lemma run_queue:
  assumes "process s = Some p" "\<not> writeThrows s" "\<forall>c\<in>set (submitted evs). hasEndTag c"
    "causal (length (queue s)) (buffer s) evs" "\<not> sublist delimiter (buffer s)"
  shows "queue (run evs s) =
           drop (length (fst (extractAll (buffer s @ received evs))))
             (queue s @ map entry (promises evs s))"
  using assms
proof (induction evs arbitrary: s)
  case Nil
  then show ?case by (simp add: extractAll_none)
next
  case (Cons e evs)
  show ?case
  proof (cases e)
    case (Submit c)
    let ?s1 = "s\<lparr>fresh := Suc (fresh s), timers := timers s @ [fresh s],
       queue := queue s @ [\<lparr>promise = fresh s, timeoutId = fresh s\<rparr>],
       effects := effects s @ [SetTimeout (fresh s), Write p (c @ [CHR 0x0A])]\<rparr>"
    have hc: "hasEndTag c" using Cons.prems(3) by (simp add: Submit)
    have g: "generateSvg c s = (fresh s, ?s1)"
      using generateSvg_running [OF Cons.prems(1) Cons.prems(2) hc] .
    have ih: "queue (run evs ?s1) =
           drop (length (fst (extractAll (buffer ?s1 @ received evs))))
             (queue ?s1 @ map entry (promises evs ?s1))"
    proof (rule Cons.IH)
      show "process ?s1 = Some p" using Cons.prems(1) by simp
      show "\<not> writeThrows ?s1" using Cons.prems(2) by simp
      show "\<forall>c\<in>set (submitted evs). hasEndTag c" using Cons.prems(3) by (simp add: Submit)
      show "causal (length (queue ?s1)) (buffer ?s1) evs" using Cons.prems(4) by (simp add: Submit)
      show "\<not> sublist delimiter (buffer ?s1)" using Cons.prems(5) by simp
    qed
    have r: "run (e # evs) s = run evs ?s1" "received (e # evs) = received evs"
      "buffer ?s1 = buffer s"
      by (simp_all add: Submit g)
    have a: "queue ?s1 @ map entry (promises evs ?s1) = queue s @ map entry (promises (e # evs) s)"
      by (simp add: Submit g entry_def)
    show ?thesis using ih by (simp only: r a)
  next
    case (Data ch)
    let ?s1 = "onData ch s"
    let ?fs = "fst (extractAll (buffer s @ ch))"
    let ?t = "snd (extractAll (buffer s @ ch))"
    have le: "length ?fs \<le> length (queue s)" using Cons.prems Data by simp
    have q1: "queue ?s1 = drop (length ?fs) (queue s)" and b1: "buffer ?s1 = ?t"
      by (simp_all add: onData_fields)
    have ih: "queue (run evs ?s1) =
           drop (length (fst (extractAll (buffer ?s1 @ received evs))))
             (queue ?s1 @ map entry (promises evs ?s1))"
    proof (rule Cons.IH)
      show "process ?s1 = Some p" using Cons.prems(1) by (simp add: onData_fields)
      show "\<not> writeThrows ?s1" using Cons.prems(2) by (simp add: onData_fields)
      show "\<forall>c\<in>set (submitted evs). hasEndTag c" using Cons.prems(3) by (simp add: Data)
      show "causal (length (queue ?s1)) (buffer ?s1) evs"
        using Cons.prems(4) by (simp add: Data q1 b1)
      show "\<not> sublist delimiter (buffer ?s1)" by (simp add: b1 extractAll_rest)
    qed
    have ea: "fst (extractAll (buffer s @ received (e # evs))) =
              ?fs @ fst (extractAll (?t @ received evs))"
      using extractAll_append [of "buffer s @ ch" "received evs"] by (simp add: Data)
    have r: "run (e # evs) s = run evs ?s1" and pr: "promises (e # evs) s = promises evs ?s1"
      by (simp_all add: Data)
    have "queue (run (e # evs) s) =
          drop (length (fst (extractAll (?t @ received evs))))
            (drop (length ?fs) (queue s) @ map entry (promises evs ?s1))"
      using ih by (simp only: r q1 b1)
    also have "drop (length ?fs) (queue s) @ map entry (promises evs ?s1) =
          drop (length ?fs) (queue s @ map entry (promises evs ?s1))"
      using le by simp
    finally show ?thesis
      by (simp only: ea pr length_append drop_drop add.commute)
  qed
qed

lemma promises_length:
  "length (promises evs s) = length (submitted evs)"
  by (induction evs s rule: promises.induct) auto

lemma causal_frames_le:
  "causal n b evs \<Longrightarrow> \<not> sublist delimiter b \<Longrightarrow>
   length (fst (extractAll (b @ received evs))) \<le> n + length (submitted evs)"
proof (induction n b evs rule: causal.induct)
  case (1 n b)
  then show ?case by (simp add: extractAll_none)
next
  case (2 n b pumlCode evs)
  then show ?case by simp
next
  case (3 n b chunk evs)
  let ?fs = "fst (extractAll (b @ chunk))"
  let ?t = "snd (extractAll (b @ chunk))"
  have "length (fst (extractAll (?t @ received evs))) \<le> (n - length ?fs) + length (submitted evs)"
    using 3 by (simp add: extractAll_rest)
  moreover have "fst (extractAll (b @ chunk @ received evs)) = ?fs @ fst (extractAll (?t @ received evs))"
    using extractAll_append [of "b @ chunk" "received evs"] by simp
  moreover have "length ?fs \<le> n" using 3 by simp
  ultimately show ?case by simp
qed

text \<open>
  Claim C1. Take the service with a child running, an empty queue and an empty buffer,
  and any run of calls of \<^verbatim>\<open>generateSvg\<close> with terminated texts and deliveries of output,
  in which no write throws and the child completes no document before the request it
  answers has been queued. Then the calls of \<^verbatim>\<open>resolve\<close> made during the run are, in
  order, the promise of the first call with the first complete document of the output,
  the promise of the second call with the second document, and so on; there are never
  more documents than promises; the texts were written to the child in the order of
  the calls; and the queue holds at the end the entries of the calls not yet answered,
  in the order of the calls. In any state whatever, \<^verbatim>\<open>processBuffer\<close> hands the documents of the buffer to
  the entries of the queue from its head on, and leaves the other entries in their
  order.
\<close>

theorem fifo_correlation:
  assumes "process s \<noteq> None" "\<not> writeThrows s" "queue s = []" "buffer s = []"
    "\<forall>c\<in>set (submitted evs). hasEndTag c" "causal 0 [] evs"
  shows "resolutions (effects (run evs s)) =
           resolutions (effects s) @ zip (promises evs s) (fst (extractAll (received evs))) \<and>
         length (fst (extractAll (received evs))) \<le> length (promises evs s) \<and>
         length (promises evs s) = length (submitted evs) \<and>
         writes (effects (run evs s)) =
           writes (effects s) @ map (\<lambda>c. c @ [CHR 0x0A]) (submitted evs) \<and>
         queue (run evs s) =
           drop (length (fst (extractAll (received evs)))) (map entry (promises evs s)) \<and>
         (\<forall>t. effects (processBuffer t) =
                effects t @ deliveries (zip (queue t) (fst (extractAll (buffer t)))) \<and>
              queue (processBuffer t) = drop (length (fst (extractAll (buffer t)))) (queue t))"
proof -
  from assms(1) obtain p where p: "process s = Some p" by auto
  have n: "\<not> sublist delimiter (buffer s)" using assms(4) by (simp add: delimiter_def)
  have c: "causal (length (queue s)) (buffer s) evs" using assms by simp
  from run_fifo [OF p assms(2) assms(5) c n]
  have "resolutions (effects (run evs s)) =
           resolutions (effects s) @ zip (promises evs s) (fst (extractAll (received evs)))"
    and "writes (effects (run evs s)) =
           writes (effects s) @ map (\<lambda>c. c @ [CHR 0x0A]) (submitted evs)"
    using assms(3,4) by simp_all
  moreover have "queue (run evs s) =
           drop (length (fst (extractAll (received evs)))) (map entry (promises evs s))"
    using run_queue [OF p assms(2) assms(5) c n] assms(3,4) by simp
  moreover have "length (fst (extractAll (received evs))) \<le> length (promises evs s)"
    using causal_frames_le [OF assms(6)] by (simp add: promises_length delimiter_nonempty)
  moreover have "\<forall>t. effects (processBuffer t) =
                effects t @ deliveries (zip (queue t) (fst (extractAll (buffer t)))) \<and>
              queue (processBuffer t) = drop (length (fst (extractAll (buffer t)))) (queue t)"
    by (simp add: processBuffer_eq effects_deliverAll)
  ultimately show ?thesis by (simp add: promises_length)
qed

theorem fifo_correlation_witness:
  "resolutions (effects (run [Submit requestA, Submit requestB, Data ''<svg>1</svg><sv'', Data ''g>2</svg>'']
      (snd (start (initial True))))) = [(1, ''<svg>1</svg>''), (2, ''<svg>2</svg>'')] \<and>
   writes (effects (run [Submit requestA, Submit requestB, Data ''<svg>1</svg><sv'', Data ''g>2</svg>'']
      (snd (start (initial True))))) = [requestA @ [CHR 0x0A], requestB @ [CHR 0x0A]] \<and>
   queue (run [Submit requestA, Submit requestB, Data ''<svg>1</svg><sv'', Data ''g>2</svg>'']
      (snd (start (initial True)))) = []"
proof -
  let ?s = "snd (start (initial True))"
  let ?evs = "[Submit requestA, Submit requestB, Data ''<svg>1</svg><sv'', Data ''g>2</svg>'']"
  have h1: "process ?s \<noteq> None" and h2: "\<not> writeThrows ?s" and h3: "queue ?s = []"
    and h4: "buffer ?s = []"
    by (simp_all add: start_def stop_def initial_def emit_def)
  have a: "hasEndTag requestA"
    by (simp add: requestA_def hasEndTag_def endTags_def canonicalize_def)
  have b: "hasEndTag requestB"
    by (simp add: requestB_def hasEndTag_def endTags_def canonicalize_def)
  have h5: "\<forall>c\<in>set (submitted ?evs). hasEndTag c" using a b by simp
  have h6: "causal 0 [] ?evs"
    by (simp add: extractAll.simps extractFrame_def delimiter_def)
  have fr: "fst (extractAll (received ?evs)) = [''<svg>1</svg>'', ''<svg>2</svg>'']"
    by (simp add: extractAll.simps extractFrame_def delimiter_def)
  have pr: "promises ?evs ?s = [1, 2]"
    by (simp add: generateSvg_def start_def stop_def initial_def emit_def a b)
  have r0: "resolutions (effects ?s) = []" and w0: "writes (effects ?s) = []"
    by (simp_all add: start_def stop_def initial_def emit_def)
  have sb: "submitted ?evs = [requestA, requestB]" by simp
  from fifo_correlation [OF h1 h2 h3 h4 h5 h6]
  have "resolutions (effects (run ?evs ?s)) =
          resolutions (effects ?s) @ zip [1, 2] [''<svg>1</svg>'', ''<svg>2</svg>'']"
    and "writes (effects (run ?evs ?s)) =
          writes (effects ?s) @ map (\<lambda>c. c @ [CHR 0x0A]) [requestA, requestB]"
    and "queue (run ?evs ?s) = drop (length [''<svg>1</svg>'', ''<svg>2</svg>'']) (map entry [1, 2])"
    by (simp_all only: fr pr sb)
  then show ?thesis by (simp only: r0 w0) simp
qed

subsection \<open>Exit of the child\<close>


lemma outcome_append:
  "outcome (es @ es') k = (case outcome es k of Some v \<Rightarrow> Some v | None \<Rightarrow> outcome es' k)"
  by (induction es k rule: outcome.induct) auto

lemma rejectAll_eq:
  "rejectAll s = s\<lparr>queue := [],
      effects := effects s @ map (\<lambda>r. Reject (promise r) ProcessClosedUnexpectedly) (queue s)\<rparr>"
proof (induction s rule: rejectAll.induct)
  case (1 s)
  show ?case
  proof (cases "queue s")
    case Nil
    then show ?thesis by (simp add: rejectAll.simps [of s])
  next
    case (Cons r rest)
    from "1.IH" [OF Cons] Cons show ?thesis
      by (simp add: rejectAll.simps [of s] emit_def)
  qed
qed

lemma outcome_rejected:
  "k \<in> promise ` set q \<Longrightarrow>
   outcome (map (\<lambda>r. Reject (promise r) e) q) k = Some (Rejected e)"
  by (induction q) auto

text \<open>
  Claim C6. When the child \<open>p\<close> exits, the callback calls \<^verbatim>\<open>reject\<close> with
  'PlantUML process closed unexpectedly' for every entry of the queue, in order, so every
  entry whose promise was still pending is rejected with that error; the queue is then
  empty and no process is held. When the jar exists, the next call of \<^verbatim>\<open>generateSvg\<close>
  spawns a new child, which is not \<open>p\<close>, holds it, and a terminated text is written to
  that new child.
\<close>

theorem process_crash_drain:
  "effects (onClose p s) =
     effects s @ map (\<lambda>r. Reject (promise r) ProcessClosedUnexpectedly) (queue s) \<and>
   (\<forall>r\<in>set (queue s). outcome (effects s) (promise r) = None \<longrightarrow>
      outcome (effects (onClose p s)) (promise r) = Some (Rejected ProcessClosedUnexpectedly)) \<and>
   queue (onClose p s) = [] \<and>
   process (onClose p s) = None \<and>
   p \<notin> set (alive (onClose p s)) \<and>
   (jarExists s \<and> p < fresh s \<longrightarrow>
      process (snd (generateSvg pumlCode (onClose p s))) = Some (Suc (fresh s)) \<and>
      Suc (fresh s) \<noteq> p \<and>
      Spawn (Suc (fresh s)) \<in> set (effects (snd (generateSvg pumlCode (onClose p s)))) \<and>
      (hasEndTag pumlCode \<and> \<not> writeThrows s \<longrightarrow>
         last (effects (snd (generateSvg pumlCode (onClose p s)))) =
           Write (Suc (fresh s)) (pumlCode @ [CHR 0x0A])))"
proof (intro conjI ballI impI)
  show "effects (onClose p s) =
     effects s @ map (\<lambda>r. Reject (promise r) ProcessClosedUnexpectedly) (queue s)"
    by (simp add: onClose_def rejectAll_eq)
  show "queue (onClose p s) = []" "process (onClose p s) = None"
    "p \<notin> set (alive (onClose p s))"
    by (simp_all add: onClose_def rejectAll_eq)
next
  fix r assume "r \<in> set (queue s)" "outcome (effects s) (promise r) = None"
  then show "outcome (effects (onClose p s)) (promise r) = Some (Rejected ProcessClosedUnexpectedly)"
    by (simp add: onClose_def rejectAll_eq outcome_append outcome_rejected)
next
  assume a: "jarExists s \<and> p < fresh s"
  let ?c = "onClose p s"
  have c: "process ?c = None" "jarExists ?c" "fresh ?c = fresh s" "writeThrows ?c = writeThrows s"
    using a by (simp_all add: onClose_def rejectAll_eq)
  show "process (snd (generateSvg pumlCode ?c)) = Some (Suc (fresh s))"
    using c by (simp add: generateSvg_def start_def stop_def emit_def Let_def)
  show "Suc (fresh s) \<noteq> p" using a by simp
  show "Spawn (Suc (fresh s)) \<in> set (effects (snd (generateSvg pumlCode ?c)))"
    using c by (simp add: generateSvg_def start_def stop_def emit_def Let_def)
  assume "hasEndTag pumlCode \<and> \<not> writeThrows s"
  then show "last (effects (snd (generateSvg pumlCode ?c))) = Write (Suc (fresh s)) (pumlCode @ [CHR 0x0A])"
    using c by (simp add: generateSvg_def start_def stop_def emit_def Let_def)
qed



lemma hasEndTag_requestA: "hasEndTag requestA"
  by (simp add: requestA_def hasEndTag_def endTags_def canonicalize_def)

lemma hasEndTag_requestB: "hasEndTag requestB"
  by (simp add: requestB_def hasEndTag_def endTags_def canonicalize_def)

lemma twoPending_eq:
  "twoPending =
     \<lparr>process = Some 0,
      queue = [\<lparr>promise = 1, timeoutId = 1\<rparr>, \<lparr>promise = 2, timeoutId = 2\<rparr>],
      buffer = [], isRestarting = False, localServer = None, jarExists = True,
      writeThrows = False, occupied = {}, alive = [0], listening = [], timers = [1, 2],
      fresh = 3,
      effects = [Spawn 0, SetTimeout 1, Write 0 (requestA @ [CHR 0x0A]),
                 SetTimeout 2, Write 0 (requestB @ [CHR 0x0A])]\<rparr>"
  by (simp add: twoPending_def generateSvg_def start_def stop_def initial_def emit_def
      hasEndTag_requestA hasEndTag_requestB)

theorem process_crash_drain_witness:
  "outcome (effects (onClose 0 twoPending)) 1 = Some (Rejected ProcessClosedUnexpectedly) \<and>
   outcome (effects (onClose 0 twoPending)) 2 = Some (Rejected ProcessClosedUnexpectedly) \<and>
   queue (onClose 0 twoPending) = [] \<and>
   process (onClose 0 twoPending) = None \<and>
   process (snd (generateSvg requestA (onClose 0 twoPending))) = Some 4 \<and>
   last (effects (snd (generateSvg requestA (onClose 0 twoPending)))) =
     Write 4 (requestA @ [CHR 0x0A])"
proof -
  have q: "queue twoPending = [\<lparr>promise = 1, timeoutId = 1\<rparr>, \<lparr>promise = 2, timeoutId = 2\<rparr>]"
    and f: "fresh twoPending = 3" and j: "jarExists twoPending" and w: "\<not> writeThrows twoPending"
    by (simp_all add: twoPending_eq)
  have o: "outcome (effects twoPending) 1 = None" "outcome (effects twoPending) 2 = None"
    by (simp_all add: twoPending_eq)
  from process_crash_drain [of 0 twoPending requestA] q f j w o hasEndTag_requestA
  show ?thesis by (simp add: outcome_append)
qed

subsection \<open>A write that throws\<close>

text \<open>
  Claim C10. When a process is held, the text is terminated and \<^verbatim>\<open>stdin.write\<close> throws,
  \<^verbatim>\<open>generateSvg\<close> arms the timer, appends the entry to the queue, clears the timer and
  rejects the promise with the error of the write: the promise, pending before, is now
  rejected, and the entry stays at the end of the queue. In every later run of calls and
  deliveries whose writes succeed (on the same conditions as in claim C1), the documents
  of the output go, in order, to the entries that were in the queue, then to this
  settled entry, and only then to the promises of the later calls: each later call gets
  the document after the one that answers it.
\<close>

theorem write_error_keeps_entry:
  assumes "process s \<noteq> None" "writeThrows s" "hasEndTag pumlCode"
  shows "fst (generateSvg pumlCode s) = fresh s \<and>
     effects (snd (generateSvg pumlCode s)) =
       effects s @ [SetTimeout (fresh s), ClearTimeout (fresh s), Reject (fresh s) WriteError] \<and>
     queue (snd (generateSvg pumlCode s)) =
       queue s @ [\<lparr>promise = fresh s, timeoutId = fresh s\<rparr>] \<and>
     (outcome (effects s) (fresh s) = None \<longrightarrow>
        outcome (effects (snd (generateSvg pumlCode s))) (fresh s) = Some (Rejected WriteError)) \<and>
     (\<forall>evs. (\<forall>c\<in>set (submitted evs). hasEndTag c) \<and> \<not> sublist delimiter (buffer s) \<and>
         causal (Suc (length (queue s))) (buffer s) evs \<longrightarrow>
         resolutions (effects (run evs ((snd (generateSvg pumlCode s))\<lparr>writeThrows := False\<rparr>))) =
           resolutions (effects s) @
           zip (map promise (queue s) @ fresh s #
                  promises evs ((snd (generateSvg pumlCode s))\<lparr>writeThrows := False\<rparr>))
               (fst (extractAll (buffer s @ received evs))))"
proof -
  from assms(1) obtain p where p: "process s = Some p" by auto
  let ?k = "fresh s"
  let ?s' = "s\<lparr>fresh := Suc ?k, timers := removeAll ?k (timers s),
       queue := queue s @ [\<lparr>promise = ?k, timeoutId = ?k\<rparr>],
       effects := effects s @ [SetTimeout ?k, ClearTimeout ?k, Reject ?k WriteError]\<rparr>"
  have g: "generateSvg pumlCode s = (?k, ?s')"
    using p assms by (simp add: generateSvg_def emit_def Let_def)
  have "\<forall>evs. (\<forall>c\<in>set (submitted evs). hasEndTag c) \<and> \<not> sublist delimiter (buffer s) \<and>
         causal (Suc (length (queue s))) (buffer s) evs \<longrightarrow>
         resolutions (effects (run evs (?s'\<lparr>writeThrows := False\<rparr>))) =
           resolutions (effects s) @
           zip (map promise (queue s) @ ?k # promises evs (?s'\<lparr>writeThrows := False\<rparr>))
               (fst (extractAll (buffer s @ received evs)))"
  proof (intro allI impI)
    fix evs
    assume a: "(\<forall>c\<in>set (submitted evs). hasEndTag c) \<and> \<not> sublist delimiter (buffer s) \<and>
         causal (Suc (length (queue s))) (buffer s) evs"
    let ?t = "?s'\<lparr>writeThrows := False\<rparr>"
    have "resolutions (effects (run evs ?t)) =
           resolutions (effects ?t) @
           zip (map promise (queue ?t) @ promises evs ?t) (fst (extractAll (buffer ?t @ received evs)))
         \<and> writes (effects (run evs ?t)) =
           writes (effects ?t) @ map (\<lambda>c. c @ [CHR 0x0A]) (submitted evs)"
    proof (rule run_fifo)
      show "process ?t = Some p" using p by simp
      show "\<not> writeThrows ?t" by simp
      show "\<forall>c\<in>set (submitted evs). hasEndTag c" using a by simp
      show "causal (length (queue ?t)) (buffer ?t) evs" using a by simp
      show "\<not> sublist delimiter (buffer ?t)" using a by simp
    qed
    then show "resolutions (effects (run evs ?t)) =
           resolutions (effects s) @
           zip (map promise (queue s) @ ?k # promises evs ?t)
               (fst (extractAll (buffer s @ received evs)))"
      by (simp add: resolutions_append)
  qed
  then show ?thesis
    by (simp add: g outcome_append)
qed


lemmas run_defs =
  generateSvg_def start_def stop_def restart_def initial_def emit_def Let_def onData_fields
  extractAll.simps extractFrame_def delimiter_def hasEndTag_requestA hasEndTag_requestB

theorem write_error_keeps_entry_witness:
  "effects (snd (generateSvg requestA
       ((initial True)\<lparr>process := Some 0, writeThrows := True, fresh := 1\<rparr>))) =
     [SetTimeout 1, ClearTimeout 1, Reject 1 WriteError] \<and>
   queue (snd (generateSvg requestA
       ((initial True)\<lparr>process := Some 0, writeThrows := True, fresh := 1\<rparr>))) =
     [\<lparr>promise = 1, timeoutId = 1\<rparr>] \<and>
   outcome (effects (snd (generateSvg requestA
       ((initial True)\<lparr>process := Some 0, writeThrows := True, fresh := 1\<rparr>)))) 1 =
     Some (Rejected WriteError) \<and>
   resolutions (effects (run [Submit requestB, Data ''<svg>1</svg>'']
       ((snd (generateSvg requestA
          ((initial True)\<lparr>process := Some 0, writeThrows := True, fresh := 1\<rparr>)))
        \<lparr>writeThrows := False\<rparr>))) = [(1, ''<svg>1</svg>'')] \<and>
   queue (run [Submit requestB, Data ''<svg>1</svg>'']
       ((snd (generateSvg requestA
          ((initial True)\<lparr>process := Some 0, writeThrows := True, fresh := 1\<rparr>)))
        \<lparr>writeThrows := False\<rparr>)) = [\<lparr>promise = 2, timeoutId = 2\<rparr>]"
proof -
  let ?s = "(initial True)\<lparr>process := Some 0, writeThrows := True, fresh := 1\<rparr>"
  let ?evs = "[Submit requestB, Data ''<svg>1</svg>'']"
  let ?t = "(snd (generateSvg requestA ?s))\<lparr>writeThrows := False\<rparr>"
  have h1: "process ?s \<noteq> None" and h2: "writeThrows ?s" by simp_all
  have s: "fresh ?s = 1" "effects ?s = []" "queue ?s = []" "buffer ?s = []"
    by (simp_all add: initial_def)
  have s': "buffer (initial True) = []" by (simp add: initial_def)
  have t: "?t = (initial True)\<lparr>process := Some 0, fresh := 2,
      queue := [\<lparr>promise = 1, timeoutId = 1\<rparr>],
      effects := [SetTimeout 1, ClearTimeout 1, Reject 1 WriteError]\<rparr>"
    by (simp add: generateSvg_def emit_def initial_def hasEndTag_requestA)
  have pr: "promises ?evs ?t = [2]"
    by (simp only: t) (simp add: generateSvg_def emit_def initial_def hasEndTag_requestB Let_def)
  have fr: "fst (extractAll (buffer ?s @ received ?evs)) = [''<svg>1</svg>'']"
    by (simp add: run_defs)
  have c: "(\<forall>c\<in>set (submitted ?evs). hasEndTag c) \<and> \<not> sublist delimiter (buffer ?s) \<and>
         causal (Suc (length (queue ?s))) (buffer ?s) ?evs"
    by (simp add: run_defs)
  have q: "queue (run ?evs ?t) = [\<lparr>promise = 2, timeoutId = 2\<rparr>]"
    by (simp only: t) (simp add: generateSvg_def emit_def initial_def hasEndTag_requestB
        onData_fields extractAll.simps extractFrame_def delimiter_def Let_def)
  note th = write_error_keeps_entry [OF h1 h2 hasEndTag_requestA]
  from th have "resolutions (effects (run ?evs ?t)) =
           resolutions (effects ?s) @
           zip (map promise (queue ?s) @ fresh ?s # promises ?evs ?t)
               (fst (extractAll (buffer ?s @ received ?evs)))"
    using c by blast
  then have r: "resolutions (effects (run ?evs ?t)) = [(1, ''<svg>1</svg>'')]"
    by (simp only: pr fr) (simp add: initial_def)
  from th have e: "effects (snd (generateSvg requestA ?s)) =
       effects ?s @ [SetTimeout (fresh ?s), ClearTimeout (fresh ?s), Reject (fresh ?s) WriteError]"
    and q0: "queue (snd (generateSvg requestA ?s)) = queue ?s @ [\<lparr>promise = fresh ?s, timeoutId = fresh ?s\<rparr>]"
    by blast+
  have e': "effects (snd (generateSvg requestA ?s)) = [SetTimeout 1, ClearTimeout 1, Reject 1 WriteError]"
    using e by (simp only: s) simp
  have q0': "queue (snd (generateSvg requestA ?s)) = [\<lparr>promise = 1, timeoutId = 1\<rparr>]"
    using q0 by (simp only: s) simp
  have o: "outcome (effects (snd (generateSvg requestA ?s))) 1 = Some (Rejected WriteError)"
    by (simp only: e') simp
  show ?thesis using e' q0' o r q by blast
qed



lemma noEndTag_startuml: "\<not> hasEndTag ''@startuml''"
  by (simp add: hasEndTag_def endTags_def canonicalize_def)

subsection \<open>Texts without an end tag\<close>

text \<open>
  Claim C4 as stated fails: with no process held and the jar missing, a text without an
  end tag is not answered with the placeholder; the lazy start throws first and the
  promise is rejected.
\<close>

theorem anti_hang_counterexample:
  "\<not> hasEndTag ''@startuml'' \<and>
   outcome (effects (snd (generateSvg ''@startuml'' (initial False))))
     (fst (generateSvg ''@startuml'' (initial False))) = Some (Rejected JarMissing)"
  by (simp add: noEndTag_startuml generateSvg_def start_def stop_def initial_def emit_def)

text \<open>
  Claim C4, amended. For a text in which no end tag occurs, \<^verbatim>\<open>generateSvg\<close> writes
  nothing to the child, arms no timer and adds no entry to the queue (a lazy start
  empties it). When a process is held it only resolves the promise with the
  placeholder; when none is held and the jar exists it spawns the child and resolves
  with the placeholder; when none is held and the jar is missing it rejects the promise
  with the error of \<^verbatim>\<open>start\<close>.
\<close>

theorem anti_hang:
  assumes "\<not> hasEndTag pumlCode"
  shows "fst (generateSvg pumlCode s) = fresh s \<and>
     writes (effects (snd (generateSvg pumlCode s))) = writes (effects s) \<and>
     timers (snd (generateSvg pumlCode s)) = timers s \<and>
     queue (snd (generateSvg pumlCode s)) = (if process s = None then [] else queue s) \<and>
     effects (snd (generateSvg pumlCode s)) =
       effects s @
       (if process s \<noteq> None then [Resolve (fresh s) placeholder]
        else if jarExists s then [Spawn (Suc (fresh s)), Resolve (fresh s) placeholder]
        else [Reject (fresh s) JarMissing])"
  using assms
  by (cases "process s")
     (simp_all add: generateSvg_def start_def stop_def emit_def Let_def writes_append)

theorem anti_hang_witness:
  "\<not> hasEndTag ''@startuml'' \<and>
   fst (generateSvg ''@startuml'' twoPending) = 3 \<and>
   writes (effects (snd (generateSvg ''@startuml'' twoPending))) = writes (effects twoPending) \<and>
   queue (snd (generateSvg ''@startuml'' twoPending)) = queue twoPending \<and>
   effects (snd (generateSvg ''@startuml'' twoPending)) =
     effects twoPending @ [Resolve 3 placeholder]"
proof -
  have p: "process twoPending \<noteq> None" and f: "fresh twoPending = 3"
    by (simp_all add: twoPending_eq)
  from anti_hang [OF noEndTag_startuml, of twoPending] p f noEndTag_startuml
  show ?thesis by (simp add: writes_append)
qed

subsection \<open>stop and the timer of a request\<close>

text \<open>
  What \<^verbatim>\<open>stop\<close> does in every state: it kills the child if one is held, leaves no
  process, an empty queue and an empty buffer, touches no timer and settles no promise;
  a second \<^verbatim>\<open>stop\<close> changes nothing.
\<close>

lemma stop_leaves:
  "process (stop s) = None" "queue (stop s) = []" "buffer (stop s) = []"
  "timers (stop s) = timers s"
  "effects (stop s) = effects s @ (case process s of Some p \<Rightarrow> [Kill p] | None \<Rightarrow> [])"
  "stop (stop s) = stop s"
  by (cases "process s"; simp add: stop_def emit_def)+

text \<open>
  What the callback of an armed timer does when the jar exists: it restarts the child,
  leaves the queue empty and rejects its own promise, and nothing else.
\<close>

lemma onTimeout_restarts:
  assumes "k \<in> set (timers s)" "jarExists s"
  shows "fst (onTimeout k s) = None"
    "effects (snd (onTimeout k s)) =
       effects s @ (case process s of Some p \<Rightarrow> [Kill p] | None \<Rightarrow> []) @
       [Spawn (fresh s), Reject k RenderTimeout]"
    "process (snd (onTimeout k s)) = Some (fresh s)"
    "queue (snd (onTimeout k s)) = []"
    "timers (snd (onTimeout k s)) = removeAll k (timers s)"
  using assms
  by (cases "process s"; cases "findIndex (\<lambda>r. promise r = k) (queue s)";
      simp add: onTimeout_def restart_def start_def stop_def emit_def Let_def)+

text \<open>
  Claim C3 at a state with a child and two waiting requests: \<^verbatim>\<open>stop\<close> kills the child
  and empties queue and buffer, but it calls no \<^verbatim>\<open>reject\<close>: both promises stay pending
  and both timers stay armed.
\<close>

theorem stop_drops_pending:
  "process twoPending = Some 0 \<and>
   queue twoPending = [\<lparr>promise = 1, timeoutId = 1\<rparr>, \<lparr>promise = 2, timeoutId = 2\<rparr>] \<and>
   effects (stop twoPending) = effects twoPending @ [Kill 0] \<and>
   outcome (effects (stop twoPending)) 1 = None \<and>
   outcome (effects (stop twoPending)) 2 = None \<and>
   timers (stop twoPending) = [1, 2] \<and>
   process (stop twoPending) = None \<and>
   queue (stop twoPending) = [] \<and>
   buffer (stop twoPending) = []"
  by (simp add: twoPending_eq stop_def emit_def)


lemma afterTimeout_eq:
  "afterTimeout =
     \<lparr>process = Some 3, queue = [], buffer = [], isRestarting = False, localServer = None,
      jarExists = True, writeThrows = False, occupied = {}, alive = [3], listening = [],
      timers = [2], fresh = 4,
      effects = [Spawn 0, SetTimeout 1, Write 0 (requestA @ [CHR 0x0A]),
                 SetTimeout 2, Write 0 (requestB @ [CHR 0x0A]),
                 Kill 0, Spawn 3, Reject 1 RenderTimeout]\<rparr>"
  by (simp add: afterTimeout_def twoPending_eq onTimeout_def restart_def start_def stop_def
      emit_def)

lemma afterFresh_eq:
  "afterFresh =
     \<lparr>process = Some 3, queue = [\<lparr>promise = 4, timeoutId = 4\<rparr>], buffer = [],
      isRestarting = False, localServer = None,
      jarExists = True, writeThrows = False, occupied = {}, alive = [3], listening = [],
      timers = [2, 4], fresh = 5,
      effects = [Spawn 0, SetTimeout 1, Write 0 (requestA @ [CHR 0x0A]),
                 SetTimeout 2, Write 0 (requestB @ [CHR 0x0A]),
                 Kill 0, Spawn 3, Reject 1 RenderTimeout,
                 SetTimeout 4, Write 3 (requestA @ [CHR 0x0A])]\<rparr>"
  by (simp add: afterFresh_def afterTimeout_eq generateSvg_def emit_def hasEndTag_requestA)

lemma afterSecond_eq:
  "afterSecond =
     \<lparr>process = Some 5, queue = [], buffer = [],
      isRestarting = False, localServer = None,
      jarExists = True, writeThrows = False, occupied = {}, alive = [5], listening = [],
      timers = [4], fresh = 6,
      effects = [Spawn 0, SetTimeout 1, Write 0 (requestA @ [CHR 0x0A]),
                 SetTimeout 2, Write 0 (requestB @ [CHR 0x0A]),
                 Kill 0, Spawn 3, Reject 1 RenderTimeout,
                 SetTimeout 4, Write 3 (requestA @ [CHR 0x0A]),
                 Kill 3, Spawn 5, Reject 2 RenderTimeout]\<rparr>"
  by (simp add: afterSecond_def afterFresh_eq onTimeout_def restart_def start_def stop_def
      emit_def)

lemma afterAnswer_eq: "afterAnswer = afterSecond"
  by (simp add: afterAnswer_def afterSecond_eq onData_def processBuffer.simps
      extractFrame_def delimiter_def shiftResolve_def)

lemma afterStale_eq:
  "afterStale =
     \<lparr>process = Some 6, queue = [], buffer = [],
      isRestarting = False, localServer = None,
      jarExists = True, writeThrows = False, occupied = {}, alive = [6], listening = [],
      timers = [], fresh = 7,
      effects = [Spawn 0, SetTimeout 1, Write 0 (requestA @ [CHR 0x0A]),
                 SetTimeout 2, Write 0 (requestB @ [CHR 0x0A]),
                 Kill 0, Spawn 3, Reject 1 RenderTimeout,
                 SetTimeout 4, Write 3 (requestA @ [CHR 0x0A]),
                 Kill 3, Spawn 5, Reject 2 RenderTimeout,
                 Kill 5, Spawn 6, Reject 4 RenderTimeout]\<rparr>"
  by (simp add: afterStale_def afterAnswer_eq afterSecond_eq onTimeout_def restart_def
      start_def stop_def emit_def)

text \<open>
  Claim C2 on a run. Two requests wait and the timer of the first fires: the first is
  rejected with 'Rendering timed out', a new child is spawned, the queue is empty, but
  the second request is not rejected and its timer stays armed. A new request is then
  queued. When the timer of the second request fires, the service restarts again and
  drops the new request from the queue; the document the child sends is given to
  nobody, and the new request ends rejected by its own timer. If instead the child
  killed by the first restart exits after the new request was queued, the new request
  is rejected with 'PlantUML process closed unexpectedly', no process is held and the
  child spawned by the restart keeps running.
\<close>

theorem timeout_not_isolated:
  "outcome (effects afterTimeout) 1 = Some (Rejected RenderTimeout) \<and>
   process afterTimeout = Some 3 \<and>
   queue afterTimeout = [] \<and>
   outcome (effects afterTimeout) 2 = None \<and>
   timers afterTimeout = [2] \<and>
   queue afterFresh = [\<lparr>promise = 4, timeoutId = 4\<rparr>] \<and>
   outcome (effects afterSecond) 2 = Some (Rejected RenderTimeout) \<and>
   process afterSecond = Some 5 \<and>
   queue afterSecond = [] \<and>
   outcome (effects afterAnswer) 4 = None \<and>
   outcome (effects afterStale) 4 = Some (Rejected RenderTimeout) \<and>
   outcome (effects afterOldExit) 4 = Some (Rejected ProcessClosedUnexpectedly) \<and>
   process afterOldExit = None \<and>
   alive afterOldExit = [3]"
  by (simp add: afterTimeout_eq afterFresh_eq afterSecond_eq afterAnswer_eq afterStale_eq)
     (simp add: afterOldExit_def afterFresh_eq onClose_def rejectAll_eq)

subsection \<open>Starting the local server\<close>


lemma attempts_append: "attempts (es @ es') = attempts es @ attempts es'"
  by (induction es rule: attempts.induct) auto

lemma replies_append: "replies (es @ es') = replies es @ replies es'"
  by (induction es rule: replies.induct) auto

lemma scanPorts_scanned:
  "fst (scanPorts cur end s) = (find (\<lambda>q. \<not> busy s q) [cur..<Suc end] \<noteq> None) \<and>
   scanned cur end s (snd (scanPorts cur end s))"
proof (induction cur "end" s rule: scanPorts.induct)
  case (1 cur "end" s)
  show ?case
  proof (cases "cur \<le> end")
    case False
    then show ?thesis by (simp add: scanPorts.simps [of cur "end" s] scanned_def)
  next
    case True
    then have upt: "[cur..<Suc end] = cur # [Suc cur..<Suc end]"
      by (simp add: upt_conv_Cons)
    let ?s1 = "s\<lparr>fresh := Suc (fresh s)\<rparr>"
    let ?s2 = "emit (Listen (fresh s) cur) (?s1\<lparr>localServer := Some (fresh s)\<rparr>)"
    have b2: "busy ?s2 = busy s" by (simp add: busy_def emit_def fun_eq_iff)
    show ?thesis
    proof (cases "busy s cur")
      case False
      then have "scanPorts cur end s =
        (True, emit (Reply (Success cur)) (?s2\<lparr>listening := listening ?s2 @ [(fresh s, cur)]\<rparr>))"
        using True b2
        by (simp add: scanPorts.simps [of cur "end" s] createServerInstance_def tryListen_def Let_def)
      moreover have "[cur..<Suc cur] = [cur]" by simp
      ultimately show ?thesis using False upt
        by (simp add: scanned_def emit_def attempts_append replies_append del: upt_Suc)
    next
      case busy: True
      let ?s3 = "?s2\<lparr>localServer := None\<rparr>"
      have sp: "scanPorts cur end s = scanPorts (Suc cur) end ?s3"
        using True b2 busy
        by (simp add: scanPorts.simps [of cur "end" s] createServerInstance_def tryListen_def Let_def)
      have b3: "busy ?s3 = busy s" by (simp add: busy_def emit_def fun_eq_iff)
      have ih: "fst (scanPorts (Suc cur) end ?s3) =
                  (find (\<lambda>q. \<not> busy ?s3 q) [Suc cur..<Suc end] \<noteq> None) \<and>
                scanned (Suc cur) end ?s3 (snd (scanPorts (Suc cur) end ?s3))"
        using "1.IH" [OF True, of "(fresh s, ?s1)" "fresh s" ?s1 "(False, ?s2)" False ?s2] busy b2
        by (simp add: createServerInstance_def tryListen_def Let_def)
      have f: "find (\<lambda>q. \<not> busy s q) [cur..<Suc end] = find (\<lambda>q. \<not> busy s q) [Suc cur..<Suc end]"
        using busy by (simp only: upt find.simps) simp
      show ?thesis
      proof (cases "find (\<lambda>q. \<not> busy s q) [Suc cur..<Suc end]")
        case None
        then show ?thesis using ih [unfolded scanned_def b3 Let_def] True busy
          by (simp add: sp f scanned_def upt emit_def attempts_append replies_append del: upt_Suc)
      next
        case (Some q)
        then have "Suc cur \<le> q"
          by (auto simp: find_Some_iff simp del: upt_Suc)
        then have u: "[cur..<Suc q] = cur # [Suc cur..<Suc q]" by (simp add: upt_conv_Cons)
        show ?thesis using ih [unfolded scanned_def b3 Let_def] Some busy
          by (simp add: sp f scanned_def u emit_def attempts_append replies_append del: upt_Suc)
      qed
    qed
  qed
qed


lemma closeLocalServer_fields:
  "attempts (effects (closeLocalServer s)) = attempts (effects s)"
  "replies (effects (closeLocalServer s)) = replies (effects s)"
  "alive (closeLocalServer s) = alive s"
  "process (closeLocalServer s) = process s"
  "jarExists (closeLocalServer s) = jarExists s"
  "fresh (closeLocalServer s) = fresh s"
  "localServer (closeLocalServer s) = None"
  by (simp_all add: closeLocalServer_def emit_def attempts_append replies_append
      split: option.splits)

lemma closeLocalServer_tidy: "tidy s \<Longrightarrow> listening (closeLocalServer s) = []"
proof (cases "localServer s")
  case None
  assume "tidy s"
  with None have "\<forall>x\<in>set (listening s). False"
    by (auto simp: tidy_def list_all_iff)
  then have "listening s = []" by (cases "listening s") auto
  with None show ?thesis by (simp add: closeLocalServer_def)
next
  case (Some server)
  assume "tidy s"
  with Some show ?thesis
    by (auto simp: tidy_def closeLocalServer_def emit_def list_all_iff filter_empty_conv)
qed

lemma start_ok:
  assumes "jarExists s"
  shows "fst (start s) = None"
    "attempts (effects (snd (start s))) = attempts (effects s)"
    "replies (effects (snd (start s))) = replies (effects s)"
    "busy (snd (start s)) = busy s"
    "listening (snd (start s)) = listening s"
    "localServer (snd (start s)) = localServer s"
    "process (snd (start s)) = Some (fresh s)"
    "fresh (snd (start s)) = Suc (fresh s)"
    "list_all (\<lambda>p. process s = Some p) (alive s) \<Longrightarrow> alive (snd (start s)) = [fresh s]"
  using assms
  by (cases "process s";
      auto simp: start_def stop_def emit_def Let_def attempts_append replies_append busy_def
        fun_eq_iff list_all_iff removeAll_filter_not_eq filter_empty_conv)+

lemma start_missing:
  assumes "\<not> jarExists s"
  shows "fst (start s) = Some JarMissing"
    "attempts (effects (snd (start s))) = attempts (effects s)"
    "replies (effects (snd (start s))) = replies (effects s)"
    "listening (snd (start s)) = listening s"
    "localServer (snd (start s)) = localServer s"
    "process (snd (start s)) = None"
    "list_all (\<lambda>p. process s = Some p) (alive s) \<Longrightarrow> alive (snd (start s)) = []"
  using assms
  by (cases "process s";
      auto simp: start_def stop_def emit_def Let_def attempts_append replies_append
        list_all_iff removeAll_filter_not_eq filter_empty_conv)+



lemma startLocalServer_manual:
  assumes "jarExists s" "port \<noteq> 0"
  shows "startLocalServer (Some port) s =
    (let s2 = snd (start (closeLocalServer s));
         s4 = emit (Listen (fresh s2) port) (s2\<lparr>fresh := Suc (fresh s2), localServer := Some (fresh s2)\<rparr>)
     in if busy (closeLocalServer s) port
        then (emit (Reply (Failure (PortBusy port))) s4)\<lparr>localServer := None\<rparr>
        else emit (Reply (Success port)) (s4\<lparr>listening := listening s4 @ [(fresh s2, port)]\<rparr>))"
proof -
  let ?s1 = "closeLocalServer s"
  have j: "jarExists ?s1" using assms(1) by (simp add: closeLocalServer_fields)
  obtain e s2 where st: "start ?s1 = (e, s2)" by (cases "start ?s1")
  have e: "e = None" and b: "busy s2 = busy ?s1"
    using start_ok(1) [OF j] start_ok(4) [OF j] st by simp_all
  have b': "busy (emit (Listen (fresh s2) port)
             (s2\<lparr>fresh := Suc (fresh s2), localServer := Some (fresh s2)\<rparr>)) = busy ?s1"
    using b by (simp add: busy_def emit_def fun_eq_iff)
  show ?thesis
    using assms(2) b'
    by (simp add: startLocalServer_def st e createServerInstance_def tryListen_def Let_def)
qed

lemma startLocalServer_auto:
  assumes "jarExists s"
  shows "startLocalServer None s =
    (let s2 = snd (start (closeLocalServer s));
         r = scanPorts startPort endPort s2
     in if fst r then snd r else emit (Reply (Failure (RangeBusy startPort endPort))) (snd r))"
proof -
  let ?s1 = "closeLocalServer s"
  have j: "jarExists ?s1" using assms(1) by (simp add: closeLocalServer_fields)
  obtain e s2 where st: "start ?s1 = (e, s2)" by (cases "start ?s1")
  have e: "e = None" using start_ok(1) [OF j] st by simp
  show ?thesis
    by (simp add: startLocalServer_def st e Let_def split: prod.splits)
qed

lemma startLocalServer_missing:
  assumes "\<not> jarExists s"
  shows "startLocalServer specificPort s =
     emit (Reply (Failure (StartFailed JarMissing))) (snd (start (closeLocalServer s)))"
proof -
  let ?s1 = "closeLocalServer s"
  have j: "\<not> jarExists ?s1" using assms(1) by (simp add: closeLocalServer_fields)
  obtain e s2 where st: "start ?s1 = (e, s2)" by (cases "start ?s1")
  have e: "e = Some JarMissing" using start_missing(1) [OF j] st by simp
  show ?thesis
    by (simp add: startLocalServer_def st e Let_def)
qed

text \<open>
  Claim C7. When the jar exists: with a port that is not 0 (manual mode) the handler
  calls \<^verbatim>\<open>listen\<close> once, on that port, and answers success with it, or the failure naming
  it when the port is busy. Without a port (automatic mode) it calls \<^verbatim>\<open>listen\<close> on 8080,
  8081, ... in ascending order up to and including the first port that is not busy,
  and answers success with that port; when all of 8080 to 8090 are busy it has tried
  exactly these eleven ports and answers the failure naming 8080-8090.
\<close>

theorem port_negotiation:
  assumes "jarExists s"
  shows "(port \<noteq> 0 \<longrightarrow>
      attempts (effects (startLocalServer (Some port) s)) = attempts (effects s) @ [port] \<and>
      replies (effects (startLocalServer (Some port) s)) =
        replies (effects s) @
        [if busy (closeLocalServer s) port then Failure (PortBusy port) else Success port]) \<and>
    attempts (effects (startLocalServer None s)) =
      attempts (effects s) @
      (case find (\<lambda>q. \<not> busy (closeLocalServer s) q) [8080..<8091] of
         None \<Rightarrow> [8080..<8091]
       | Some q \<Rightarrow> [8080..<Suc q]) \<and>
    replies (effects (startLocalServer None s)) =
      replies (effects s) @
      [case find (\<lambda>q. \<not> busy (closeLocalServer s) q) [8080..<8091] of
         None \<Rightarrow> Failure (RangeBusy 8080 8090)
       | Some q \<Rightarrow> Success q]"
proof -
  let ?s1 = "closeLocalServer s"
  let ?s2 = "snd (start ?s1)"
  have j: "jarExists ?s1" using assms(1) by (simp add: closeLocalServer_fields)
  note so = start_ok [OF j]
  have a2: "attempts (effects ?s2) = attempts (effects s)"
    and r2: "replies (effects ?s2) = replies (effects s)"
    by (simp_all add: so closeLocalServer_fields)
  have manual: "port \<noteq> 0 \<longrightarrow>
      attempts (effects (startLocalServer (Some port) s)) = attempts (effects s) @ [port] \<and>
      replies (effects (startLocalServer (Some port) s)) =
        replies (effects s) @
        [if busy ?s1 port then Failure (PortBusy port) else Success port]"
    using a2 r2
    by (simp add: startLocalServer_manual [OF assms] Let_def emit_def attempts_append
        replies_append)
  let ?r = "scanPorts startPort endPort ?s2"
  let ?free = "find (\<lambda>q. \<not> busy ?s1 q) [8080..<8091]"
  have up: "[startPort..<Suc endPort] = [8080..<8091]"
    by (simp add: startPort_def endPort_def)
  have sc: "fst ?r = (?free \<noteq> None)" "scanned startPort endPort ?s2 (snd ?r)"
    using scanPorts_scanned [of startPort endPort ?s2] so(4)
    by (simp_all only: up)
  have "attempts (effects (snd ?r)) =
      attempts (effects s) @ (case ?free of None \<Rightarrow> [8080..<8091] | Some q \<Rightarrow> [startPort..<Suc q])"
    and "replies (effects (snd ?r)) =
      replies (effects s) @ (case ?free of None \<Rightarrow> [] | Some q \<Rightarrow> [Success q])"
    using sc(2) a2 r2 so(4) unfolding scanned_def Let_def up by simp_all
  then have auto: "attempts (effects (startLocalServer None s)) =
      attempts (effects s) @
      (case ?free of None \<Rightarrow> [8080..<8091] | Some q \<Rightarrow> [8080..<Suc q]) \<and>
    replies (effects (startLocalServer None s)) =
      replies (effects s) @
      [case ?free of None \<Rightarrow> Failure (RangeBusy 8080 8090) | Some q \<Rightarrow> Success q]"
    using sc(1)
    by (cases ?free)
       (simp_all add: startLocalServer_auto [OF assms] Let_def emit_def attempts_append
          replies_append startPort_def endPort_def del: upt_Suc)
  show ?thesis using manual auto by blast
qed


theorem port_negotiation_witness:
  "attempts (effects (startLocalServer (Some 8081) ((initial True)\<lparr>occupied := {8080, 8081, 8082}\<rparr>))) = [8081] \<and>
   replies (effects (startLocalServer (Some 8081) ((initial True)\<lparr>occupied := {8080, 8081, 8082}\<rparr>))) =
     [Failure (PortBusy 8081)] \<and>
   attempts (effects (startLocalServer None ((initial True)\<lparr>occupied := {8080, 8081, 8082}\<rparr>))) =
     [8080, 8081, 8082, 8083] \<and>
   replies (effects (startLocalServer None ((initial True)\<lparr>occupied := {8080, 8081, 8082}\<rparr>))) =
     [Success 8083]"
proof -
  let ?s = "(initial True)\<lparr>occupied := {8080, 8081, 8082}\<rparr>"
  have j: "jarExists ?s" by (simp add: initial_def)
  have b: "busy (closeLocalServer ?s) = (\<lambda>q. q \<in> {8080, 8081, 8082})"
    by (simp add: closeLocalServer_def busy_def initial_def fun_eq_iff)
  have u: "[8080..<8091] = [8080, 8081, 8082, 8083, 8084, 8085, 8086, 8087, 8088, 8089, 8090::nat]"
    by (simp add: upt_rec_numeral)
  have f: "find (\<lambda>q. \<not> busy (closeLocalServer ?s) q) [8080..<8091] = Some 8083"
    by (simp only: b u) simp
  have v: "[8080..<Suc 8083] = [8080, 8081, 8082, 8083::nat]"
    by (simp add: upt_rec_numeral)
  have e: "attempts (effects ?s) = []" "replies (effects ?s) = []" by (simp_all add: initial_def)
  from port_negotiation [OF j, of 8081]
  show ?thesis by (simp only: f b e v) simp
qed



text \<open>
  What the handler does on a failure when it starts from a state with nothing left over
  (\<open>tidy\<close>; the program does not keep this condition, see \<open>failedRestartExit\<close> below).
  When the jar is missing, it answers once, with the failure of \<^verbatim>\<open>start\<close>, calls
  \<^verbatim>\<open>listen\<close> on no port, and afterwards no socket listens, no server is held, no
  process is held and no child runs. When the jar exists and the requested port is busy
  (manual mode), or all of 8080 to 8090 are busy (automatic mode), it answers once, with
  the failure naming the port or the range, and afterwards no socket listens and no
  server is held; but the child spawned by the handler keeps running.
\<close>

lemma startup_failure_tidy:
  assumes "tidy s"
  shows "(\<not> jarExists s \<longrightarrow>
      replies (effects (startLocalServer specificPort s)) =
        replies (effects s) @ [Failure (StartFailed JarMissing)] \<and>
      attempts (effects (startLocalServer specificPort s)) = attempts (effects s) \<and>
      listening (startLocalServer specificPort s) = [] \<and>
      localServer (startLocalServer specificPort s) = None \<and>
      process (startLocalServer specificPort s) = None \<and>
      alive (startLocalServer specificPort s) = []) \<and>
    (jarExists s \<and> port \<noteq> 0 \<and> busy (closeLocalServer s) port \<longrightarrow>
      replies (effects (startLocalServer (Some port) s)) =
        replies (effects s) @ [Failure (PortBusy port)] \<and>
      listening (startLocalServer (Some port) s) = [] \<and>
      localServer (startLocalServer (Some port) s) = None \<and>
      process (startLocalServer (Some port) s) = Some (fresh s) \<and>
      alive (startLocalServer (Some port) s) = [fresh s]) \<and>
    (jarExists s \<and> (\<forall>q\<in>set [8080..<8091]. busy (closeLocalServer s) q) \<longrightarrow>
      replies (effects (startLocalServer None s)) =
        replies (effects s) @ [Failure (RangeBusy 8080 8090)] \<and>
      listening (startLocalServer None s) = [] \<and>
      localServer (startLocalServer None s) = None \<and>
      process (startLocalServer None s) = Some (fresh s) \<and>
      alive (startLocalServer None s) = [fresh s])"
proof -
  let ?s1 = "closeLocalServer s"
  let ?s2 = "snd (start ?s1)"
  have l1: "listening ?s1 = []" using assms by (rule closeLocalServer_tidy)
  have al: "list_all (\<lambda>p. process ?s1 = Some p) (alive ?s1)"
    using assms by (simp add: tidy_def closeLocalServer_fields)
  have missing: "\<not> jarExists s \<longrightarrow>
      replies (effects (startLocalServer specificPort s)) =
        replies (effects s) @ [Failure (StartFailed JarMissing)] \<and>
      attempts (effects (startLocalServer specificPort s)) = attempts (effects s) \<and>
      listening (startLocalServer specificPort s) = [] \<and>
      localServer (startLocalServer specificPort s) = None \<and>
      process (startLocalServer specificPort s) = None \<and>
      alive (startLocalServer specificPort s) = []"
  proof
    assume n: "\<not> jarExists s"
    then have j: "\<not> jarExists ?s1" by (simp add: closeLocalServer_fields)
    note sm = start_missing [OF j]
    show "replies (effects (startLocalServer specificPort s)) =
        replies (effects s) @ [Failure (StartFailed JarMissing)] \<and>
      attempts (effects (startLocalServer specificPort s)) = attempts (effects s) \<and>
      listening (startLocalServer specificPort s) = [] \<and>
      localServer (startLocalServer specificPort s) = None \<and>
      process (startLocalServer specificPort s) = None \<and>
      alive (startLocalServer specificPort s) = []"
      using sm(2-6) sm(7) [OF al] l1
      by (simp add: startLocalServer_missing [OF n] emit_def replies_append attempts_append
          closeLocalServer_fields)
  qed
  have manual: "jarExists s \<and> port \<noteq> 0 \<and> busy ?s1 port \<longrightarrow>
      replies (effects (startLocalServer (Some port) s)) =
        replies (effects s) @ [Failure (PortBusy port)] \<and>
      listening (startLocalServer (Some port) s) = [] \<and>
      localServer (startLocalServer (Some port) s) = None \<and>
      process (startLocalServer (Some port) s) = Some (fresh s) \<and>
      alive (startLocalServer (Some port) s) = [fresh s]"
  proof
    assume a: "jarExists s \<and> port \<noteq> 0 \<and> busy ?s1 port"
    then have j: "jarExists ?s1" by (simp add: closeLocalServer_fields)
    note so = start_ok [OF j]
    from a have js: "jarExists s" and p0: "port \<noteq> 0" and b: "busy ?s1 port" by simp_all
    show "replies (effects (startLocalServer (Some port) s)) =
        replies (effects s) @ [Failure (PortBusy port)] \<and>
      listening (startLocalServer (Some port) s) = [] \<and>
      localServer (startLocalServer (Some port) s) = None \<and>
      process (startLocalServer (Some port) s) = Some (fresh s) \<and>
      alive (startLocalServer (Some port) s) = [fresh s]"
      using so(3,5,7) so(9) [OF al] l1 b
      by (simp add: startLocalServer_manual [OF js p0] Let_def emit_def replies_append
          closeLocalServer_fields)
  qed
  have auto: "jarExists s \<and> (\<forall>q\<in>set [8080..<8091]. busy ?s1 q) \<longrightarrow>
      replies (effects (startLocalServer None s)) =
        replies (effects s) @ [Failure (RangeBusy 8080 8090)] \<and>
      listening (startLocalServer None s) = [] \<and>
      localServer (startLocalServer None s) = None \<and>
      process (startLocalServer None s) = Some (fresh s) \<and>
      alive (startLocalServer None s) = [fresh s]"
  proof
    assume a: "jarExists s \<and> (\<forall>q\<in>set [8080..<8091]. busy ?s1 q)"
    then have js: "jarExists s" and j: "jarExists ?s1" by (simp_all add: closeLocalServer_fields)
    note so = start_ok [OF j]
    let ?r = "scanPorts startPort endPort ?s2"
    have up: "[startPort..<Suc endPort] = [8080..<8091]"
      by (simp add: startPort_def endPort_def)
    have fr: "find (\<lambda>q. \<not> busy ?s1 q) [8080..<8091] = None"
      using a by (simp only: find_None_iff) blast
    have sc: "fst ?r = (find (\<lambda>q. \<not> busy ?s1 q) [8080..<8091] \<noteq> None)"
      "scanned startPort endPort ?s2 (snd ?r)"
      using scanPorts_scanned [of startPort endPort ?s2] so(4)
      by (simp_all only: up)
    have le: "startPort \<le> endPort" by (simp add: startPort_def endPort_def)
    have f: "\<not> fst ?r" using sc(1) fr by simp
    have "replies (effects (snd ?r)) = replies (effects s)"
      and "listening (snd ?r) = []" and "localServer (snd ?r) = None"
      and "process (snd ?r) = Some (fresh s)" and "alive (snd ?r) = [fresh s]"
      using sc(2) so(3,5,7) so(9) [OF al] l1 le
      unfolding scanned_def Let_def up so(4) fr
      by (simp_all add: closeLocalServer_fields)
    then show "replies (effects (startLocalServer None s)) =
        replies (effects s) @ [Failure (RangeBusy 8080 8090)] \<and>
      listening (startLocalServer None s) = [] \<and>
      localServer (startLocalServer None s) = None \<and>
      process (startLocalServer None s) = Some (fresh s) \<and>
      alive (startLocalServer None s) = [fresh s]"
      using f
      by (simp add: startLocalServer_auto [OF js] Let_def emit_def replies_append
          startPort_def endPort_def)
  qed
  show ?thesis using missing manual auto by blast
qed


lemma serving_eq:
  "serving =
     \<lparr>process = Some 0, queue = [], buffer = [], isRestarting = False, localServer = Some 2,
      jarExists = True, writeThrows = False, occupied = {8080}, alive = [0],
      listening = [(2, 8081)], timers = [], fresh = 3,
      effects = [Spawn 0, Listen 1 8080, Listen 2 8081, Reply (Success 8081)]\<rparr>"
  by (simp add: serving_def startLocalServer_def closeLocalServer_def start_def stop_def
      scanPorts.simps startPort_def endPort_def
      createServerInstance_def tryListen_def busy_def emit_def initial_def)

lemma failedRestart_eq:
  "failedRestart =
     \<lparr>process = Some 3, queue = [], buffer = [], isRestarting = False, localServer = None,
      jarExists = True, writeThrows = False, occupied = {8080}, alive = [3],
      listening = [], timers = [], fresh = 5,
      effects = [Spawn 0, Listen 1 8080, Listen 2 8081, Reply (Success 8081),
                 CloseServer 2, Kill 0, Spawn 3, Listen 4 8080,
                 Reply (Failure (PortBusy 8080))]\<rparr>"
  by (simp add: failedRestart_def serving_eq startLocalServer_def closeLocalServer_def
      start_def stop_def createServerInstance_def tryListen_def busy_def emit_def)

text \<open>
  Claim C8 on three failures with the jar present. No server and no child run, and the
  requested port 8081 is busy: the handler answers the failure once and leaves no
  socket and no server, but the child it spawned before binding keeps running. The
  same in automatic mode when all of 8080 to 8090 are busy. A server and a child run,
  and a start is asked for on the busy port 8080: the handler closes the server, kills
  the child, spawns a new one, answers the failure once and leaves the new child
  running; when the killed child then exits, its callback clears the handle of the
  service, and the new child runs on, held by nobody.
\<close>

theorem startup_failure_leaves_engine:
  "replies (effects (startLocalServer (Some 8081) ((initial True)\<lparr>occupied := {8081}\<rparr>))) =
     [Failure (PortBusy 8081)] \<and>
   listening (startLocalServer (Some 8081) ((initial True)\<lparr>occupied := {8081}\<rparr>)) = [] \<and>
   localServer (startLocalServer (Some 8081) ((initial True)\<lparr>occupied := {8081}\<rparr>)) = None \<and>
   process (startLocalServer (Some 8081) ((initial True)\<lparr>occupied := {8081}\<rparr>)) = Some 0 \<and>
   alive (startLocalServer (Some 8081) ((initial True)\<lparr>occupied := {8081}\<rparr>)) = [0] \<and>
   replies (effects (startLocalServer None ((initial True)\<lparr>occupied := {8080..<8091}\<rparr>))) =
     [Failure (RangeBusy 8080 8090)] \<and>
   listening (startLocalServer None ((initial True)\<lparr>occupied := {8080..<8091}\<rparr>)) = [] \<and>
   alive (startLocalServer None ((initial True)\<lparr>occupied := {8080..<8091}\<rparr>)) = [0] \<and>
   replies (effects failedRestart) = replies (effects serving) @ [Failure (PortBusy 8080)] \<and>
   listening failedRestart = [] \<and>
   process failedRestart = Some 3 \<and>
   alive failedRestart = [3] \<and>
   process failedRestartExit = None \<and>
   alive failedRestartExit = [3]"
proof -
  let ?m = "(initial True)\<lparr>occupied := {8081}\<rparr>"
  let ?c = "(initial True)\<lparr>occupied := {8080..<8091}\<rparr>"
  have 1: "replies (effects (startLocalServer (Some 8081) ?m)) = [Failure (PortBusy 8081)]"
    "listening (startLocalServer (Some 8081) ?m) = []"
    "localServer (startLocalServer (Some 8081) ?m) = None"
    "process (startLocalServer (Some 8081) ?m) = Some 0"
    "alive (startLocalServer (Some 8081) ?m) = [0]"
    by (simp_all add: startLocalServer_def closeLocalServer_def start_def stop_def
        createServerInstance_def tryListen_def busy_def emit_def initial_def)
  have t: "tidy ?c" by (simp add: tidy_def initial_def)
  have c: "jarExists ?c \<and> (\<forall>q\<in>set [8080..<8091]. busy (closeLocalServer ?c) q)"
    by (simp add: closeLocalServer_def busy_def initial_def)
  have f: "fresh ?c = 0" "replies (effects ?c) = []" by (simp_all add: initial_def)
  from startup_failure_tidy [OF t] c
  have 2: "replies (effects (startLocalServer None ?c)) = [] @ [Failure (RangeBusy 8080 8090)] \<and>
     listening (startLocalServer None ?c) = [] \<and> alive (startLocalServer None ?c) = [0]"
    by (simp only: f) blast
  have 3: "replies (effects failedRestart) = replies (effects serving) @ [Failure (PortBusy 8080)]"
    "listening failedRestart = []" "process failedRestart = Some 3" "alive failedRestart = [3]"
    by (simp_all add: failedRestart_eq serving_eq)
  have 4: "process failedRestartExit = None" "alive failedRestartExit = [3]"
    by (simp_all add: failedRestartExit_def failedRestart_eq onClose_def rejectAll_eq)
  show ?thesis using 1 2 3 4 by simp
qed

subsection \<open>The hexadecimal round trip\<close>



lemma hexLoop_eq: "hexLoop data hexStr = hexStr @ concat (map hexByte data)"
  by (induction data arbitrary: hexStr) (simp_all add: hexByte_def)

lemma below16: "n < 16 \<Longrightarrow> n \<in> {0, 1, 2, 3, 4, 5, 6, 7, 8, 9, 10, 11, 12, 13, 14, 15::nat}"
  by simp arith

lemma hexVal_hexDigit: "n < 16 \<Longrightarrow> hexVal (hexDigit n) = Some n"
  using below16 [of n] by (auto simp: hexVal_def hexDigit_def)

lemma hexDigit_not_slash: "n < 16 \<Longrightarrow> hexDigit n \<noteq> CHR ''/''"
  using below16 [of n] by (auto simp: hexDigit_def)

lemma hexByte_eq: "hexByte b = [hexDigit (unat b div 16), hexDigit (unat b mod 16)]"
  by (simp add: hexByte_def toString16_def hexDigit_def)

lemma unat_byte_div: "unat (b :: 8 word) div 16 < 16"
proof -
  have "unat b < 2 ^ LENGTH(8)" by (rule unsigned_less)
  then show ?thesis by simp
qed

lemma bufferFromHex_hexByte: "bufferFromHex (hexByte b @ rest) = b # bufferFromHex rest"
proof -
  have "(of_nat (16 * (unat b div 16) + unat b mod 16) :: 8 word) = b" by simp
  then show ?thesis
    by (simp add: hexByte_eq hexVal_hexDigit unat_byte_div)
qed

lemma bufferFromHex_hexLoop: "bufferFromHex (hexLoop data []) = data"
  by (induction data) (simp_all add: hexLoop_eq bufferFromHex_hexByte)

lemma hexByte_no_slash: "CHR ''/'' \<notin> set (hexByte b)"
  using hexDigit_not_slash [OF unat_byte_div, of b] hexDigit_not_slash [of "unat b mod 16"]
  by (auto simp: hexByte_eq)

lemma hexLoop_no_slash: "CHR ''/'' \<notin> set (hexLoop data [])"
  by (induction data) (simp_all add: hexLoop_eq hexByte_no_slash)



lemma utf8Decode_1: "cp < 0x80 \<Longrightarrow> utf8Decode (utf8Bytes cp @ rest) = cp # utf8Decode rest"
  by (simp add: utf8Bytes_def)

lemma utf8Decode_2:
  assumes "0x80 \<le> cp" "cp < 0x800"
  shows "utf8Decode (utf8Bytes cp @ rest) = cp # utf8Decode rest"
proof -
  define b c where "b = cp div 0x40" and "c = cp mod 0x40"
  have e: "cp = b * 0x40 + c" "c < 0x40" by (simp_all add: b_def c_def)
  have r: "2 \<le> b" "b \<le> 0x1F" using assms e by linarith+
  have "utf8Bytes cp = [0xC0 + b, 0x80 + c]"
    using assms by (simp add: utf8Bytes_def b_def c_def)
  then show ?thesis using e r by (simp add: continuation_def)
qed

lemma utf8Decode_3:
  assumes "0x800 \<le> cp" "cp < 0x10000" "\<not> (0xD800 \<le> cp \<and> cp \<le> 0xDFFF)"
  shows "utf8Decode (utf8Bytes cp @ rest) = cp # utf8Decode rest"
proof -
  define a b c d where "a = cp div 0x40" and "b = a div 0x40" and "c = a mod 0x40"
    and "d = cp mod 0x40"
  have e: "cp = a * 0x40 + d" "d < 0x40" "a = b * 0x40 + c" "c < 0x40"
    by (simp_all add: a_def b_def c_def d_def)
  have b': "cp div 0x1000 = b" by (simp add: b_def a_def div_mult2_eq)
  have r: "b \<le> 0xF" "b = 0 \<longrightarrow> 0x20 \<le> c" "b = 0xD \<longrightarrow> c \<le> 0x1F"
    using assms e by linarith+
  have v: "b * 0x1000 + c * 0x40 + d = cp" using e by linarith
  have "utf8Bytes cp = [0xE0 + b, 0x80 + c, 0x80 + d]"
    using assms by (simp add: utf8Bytes_def b' c_def a_def d_def)
  then show ?thesis using e(2,4) r v by (simp add: continuation_def)
qed

lemma utf8Decode_4:
  assumes "0x10000 \<le> cp" "cp < 0x110000"
  shows "utf8Decode (utf8Bytes cp @ rest) = cp # utf8Decode rest"
proof -
  define a a2 t b c d where "a = cp div 0x40" and "a2 = a div 0x40" and "t = a2 div 0x40"
    and "b = a2 mod 0x40" and "c = a mod 0x40" and "d = cp mod 0x40"
  have e: "cp = a * 0x40 + d" "d < 0x40" "a = a2 * 0x40 + c" "c < 0x40"
    "a2 = t * 0x40 + b" "b < 0x40"
    by (simp_all add: a_def a2_def t_def b_def c_def d_def)
  have a2': "cp div 0x1000 = a2" by (simp add: a2_def a_def div_mult2_eq)
  have t': "cp div 0x40000 = t" by (simp add: t_def a2_def a_def div_mult2_eq)
  have r: "t \<le> 4" "t = 0 \<longrightarrow> 0x10 \<le> b" "t = 4 \<longrightarrow> b \<le> 0xF"
    using assms e by linarith+
  have v: "t * 0x40000 + b * 0x1000 + c * 0x40 + d = cp" using e by linarith
  have "utf8Bytes cp = [0xF0 + t, 0x80 + b, 0x80 + c, 0x80 + d]"
    using assms by (simp add: utf8Bytes_def a2' t' b_def c_def a_def d_def)
  then show ?thesis using e(2,4,6) r v by (simp add: continuation_def)
qed

lemma utf8Decode_utf8Bytes:
  "scalar cp \<Longrightarrow> utf8Decode (utf8Bytes cp @ rest) = cp # utf8Decode rest"
  using utf8Decode_1 [of cp rest] utf8Decode_2 [of cp rest] utf8Decode_3 [of cp rest]
    utf8Decode_4 [of cp rest]
  unfolding scalar_def by linarith

lemma utf8Decode_concat:
  "\<forall>cp\<in>set cps. scalar cp \<Longrightarrow> utf8Decode (concat (map utf8Bytes cps)) = cps"
  by (induction cps) (simp_all add: utf8Decode_utf8Bytes)

lemma utf8Bytes_byte:
  assumes "scalar cp" "x \<in> set (utf8Bytes cp)"
  shows "x < 256"
proof -
  have m: "cp mod 0x40 < 0x40" "cp div 0x40 mod 0x40 < 0x40" "cp div 0x1000 mod 0x40 < 0x40"
    by simp_all
  have d: "cp < 0x800 \<longrightarrow> cp div 0x40 < 0x20" "cp < 0x10000 \<longrightarrow> cp div 0x1000 < 0x10"
    "cp < 0x110000 \<longrightarrow> cp div 0x40000 < 5"
    by (simp_all add: less_mult_imp_div_less)
  show ?thesis
    using assms m d unfolding scalar_def utf8Bytes_def
    by (auto split: if_splits simp del: mod_less_divisor)
qed


lemma codeUnits_pair:
  assumes "0xD800 \<le> u" "u \<le> 0xDBFF" "0xDC00 \<le> v" "v \<le> 0xDFFF"
  shows "codeUnits (0x10000 + (u - 0xD800) * 0x400 + (v - 0xDC00)) = [u, v]"
    and "scalar (0x10000 + (u - 0xD800) * 0x400 + (v - 0xDC00))"
proof -
  define h l where "h = u - 0xD800" and "l = v - 0xDC00"
  have r: "h \<le> 0x3FF" "l < 0x400" "u = 0xD800 + h" "v = 0xDC00 + l"
    using assms by (simp_all add: h_def l_def)
  have "(h * 0x400 + l) div 0x400 = h" "(h * 0x400 + l) mod 0x400 = l"
    using r(2) by simp_all
  then show "codeUnits (0x10000 + (u - 0xD800) * 0x400 + (v - 0xDC00)) = [u, v]"
    using r(3,4) by (simp add: codeUnits_def h_def [symmetric] l_def [symmetric])
  have "h * 0x400 + l < 0x100000" using r(1,2) by linarith
  then show "scalar (0x10000 + (u - 0xD800) * 0x400 + (v - 0xDC00))"
    by (simp add: scalar_def h_def [symmetric] l_def [symmetric])
qed

lemma utf16_roundtrip:
  "isWellFormed us \<Longrightarrow> \<forall>u\<in>set us. u < 0x10000 \<Longrightarrow>
   concat (map codeUnits (scalarValues us)) = us \<and> (\<forall>cp\<in>set (scalarValues us). scalar cp)"
proof (induction us rule: isWellFormed.induct)
  case 1
  then show ?case by simp
next
  case (2 u us)
  show ?case
  proof (cases "0xD800 \<le> u \<and> u \<le> 0xDBFF")
    case True
    with "2.prems" obtain v rest where us: "us = v # rest"
      and v: "0xDC00 \<le> v" "v \<le> 0xDFFF" and wf: "isWellFormed rest"
      by (cases us) auto
    have ih: "concat (map codeUnits (scalarValues rest)) = rest \<and>
              (\<forall>cp\<in>set (scalarValues rest). scalar cp)"
      using "2.IH"(1) [OF True us] wf "2.prems"(2) us by simp
    from codeUnits_pair [of u v] True v ih show ?thesis
      by (simp add: us)
  next
    case False
    with "2.prems" have n: "\<not> (0xDC00 \<le> u \<and> u \<le> 0xDFFF)" and wf: "isWellFormed us"
      and lt: "u < 0x10000"
      by simp_all
    have ih: "concat (map codeUnits (scalarValues us)) = us \<and>
              (\<forall>cp\<in>set (scalarValues us). scalar cp)"
      using "2.IH"(2) [OF False] wf "2.prems"(2) by simp
    have "scalar u" using False n lt unfolding scalar_def by linarith
    moreover have "scalarValues (u # us) = u # scalarValues us" by (simp add: False n)
    moreover have "codeUnits u = [u]" using lt by (simp add: codeUnits_def)
    ultimately show ?thesis using ih by (simp del: scalarValues.simps)
  qed
qed

lemma split_no_slash: "CHR ''/'' \<notin> set xs \<Longrightarrow> split xs = [xs]"
  by (induction xs) auto

lemma decodePath_segment:
  "CHR ''/'' \<notin> set hex \<Longrightarrow>
   decodePath (''/svg/~h'' @ hex) = Some (bufferToStringUtf8 (bufferFromHex hex))"
  by (simp add: decodePath_def split_no_slash)

lemma map_unat_of_nat:
  "\<forall>x\<in>set xs. x < 256 \<Longrightarrow> map unat (map of_nat xs :: 8 word list) = xs"
  by (induction xs) (simp_all add: unat_of_nat)

lemma roundtrip_bytes:
  assumes "isWellFormed (map unat code)"
  shows "bufferToStringUtf8 (textEncoderEncode code) = code"
proof -
  let ?us = "map unat code"
  have lt: "\<forall>u\<in>set ?us. u < 0x10000"
  proof
    fix u assume "u \<in> set ?us"
    then obtain w :: "16 word" where "u = unat w" by auto
    moreover have "unat w < 2 ^ LENGTH(16)" by (rule unsigned_less)
    ultimately show "u < 0x10000" by simp
  qed
  from utf16_roundtrip [OF assms lt]
  have u16: "concat (map codeUnits (scalarValues ?us)) = ?us"
    and sc: "\<forall>cp\<in>set (scalarValues ?us). scalar cp" by simp_all
  have small: "\<forall>x\<in>set (concat (map utf8Bytes (scalarValues ?us))). x < 256"
    using sc utf8Bytes_byte by auto
  have "map unat (textEncoderEncode code) = concat (map utf8Bytes (scalarValues ?us))"
    unfolding textEncoderEncode_def by (rule map_unat_of_nat [OF small])
  then have "utf8Decode (map unat (textEncoderEncode code)) = scalarValues ?us"
    using utf8Decode_concat [OF sc] by simp
  then have "bufferToStringUtf8 (textEncoderEncode code) = map of_nat ?us"
    by (simp add: bufferToStringUtf8_def u16)
  then show ?thesis by (simp add: comp_def)
qed

text \<open>
  Claim C9. For every string without an unpaired surrogate (every string that is
  Unicode text: empty, ASCII, or with characters of several UTF-8 bytes, among them
  those above U+FFFF), reading the hexadecimal digits of the segment \<^verbatim>\<open>~h...\<close> built by
  \<^verbatim>\<open>encodePlantUML\<close> back into bytes and the bytes as UTF-8 gives the string again; the
  request handler finds that segment in the path \<^verbatim>\<open>/svg/~h...\<close>, which is what
  \<^verbatim>\<open>encodePlantUML\<close> puts after the base URL, and decodes it to the string.
\<close>

theorem hex_roundtrip:
  assumes "isWellFormed (map unat code)"
  shows "bufferToStringUtf8 (bufferFromHex (drop 2 (''~h'' @ hexLoop (textEncoderEncode code) []))) = code \<and>
    decodePath (''/svg/~h'' @ hexLoop (textEncoderEncode code) []) = Some code \<and>
    decodePath (drop (length (cleanBaseUrl serverUrl)) (encodePlantUML code serverUrl)) = Some code"
proof -
  let ?hex = "hexLoop (textEncoderEncode code) []"
  have b: "bufferToStringUtf8 (bufferFromHex ?hex) = code"
    using roundtrip_bytes [OF assms] by (simp add: bufferFromHex_hexLoop)
  have p: "decodePath (''/svg/~h'' @ ?hex) = Some code"
    using decodePath_segment [OF hexLoop_no_slash, of "textEncoderEncode code"] b by simp
  have "drop (length (cleanBaseUrl serverUrl)) (encodePlantUML code serverUrl) = ''/svg/~h'' @ ?hex"
    by (simp add: encodePlantUML_def)
  then show ?thesis using b p by simp
qed


lemma example_hex:
  "encodePlantUML [0x41, 0xE9, 0x4E2D, 0xD83D, 0xDE00] ''http://localhost:8080/'' =
     ''http://localhost:8080/svg/~h41c3a9e4b8adf09f9880''"
  by (simp add: encodePlantUML_def cleanBaseUrl_def textEncoderEncode_def utf8Bytes_def
      toString16_def hexDigit_def)

theorem hex_roundtrip_witness:
  "isWellFormed (map unat [0x41, 0xE9, 0x4E2D, 0xD83D, 0xDE00 :: 16 word]) \<and>
   decodePath (''/svg/~h'' @ hexLoop (textEncoderEncode [0x41, 0xE9, 0x4E2D, 0xD83D, 0xDE00]) []) =
     Some [0x41, 0xE9, 0x4E2D, 0xD83D, 0xDE00] \<and>
   decodePath (drop (length (cleanBaseUrl ''http://localhost:8080/''))
      (encodePlantUML [0x41, 0xE9, 0x4E2D, 0xD83D, 0xDE00] ''http://localhost:8080/'')) =
     Some [0x41, 0xE9, 0x4E2D, 0xD83D, 0xDE00] \<and>
   decodePath (''/svg/~h'' @ hexLoop (textEncoderEncode []) []) = Some []"
proof -
  have w: "isWellFormed (map unat [0x41, 0xE9, 0x4E2D, 0xD83D, 0xDE00 :: 16 word])"
    by simp
  have e: "isWellFormed (map unat ([] :: 16 word list))" by simp
  from hex_roundtrip [OF w, of "''http://localhost:8080/''"] hex_roundtrip [OF e] w
  show ?thesis by blast
qed

text \<open>
  An unpaired surrogate is no Unicode text and has no UTF-8 form: \<^verbatim>\<open>TextEncoder\<close> sends
  U+FFFD in its place.
\<close>

lemma lone_surrogate_replaced:
  "bufferToStringUtf8 (bufferFromHex (hexLoop (textEncoderEncode [0x41, 0xD83D, 0x42]) [])) =
     [0x41, 0xFFFD, 0x42]"
  by (simp add: bufferFromHex_hexLoop)
     (simp add: bufferToStringUtf8_def textEncoderEncode_def utf8Bytes_def codeUnits_def
        continuation_def)

end
